theory Spec2Isabelle
  imports Main "HOL-Library.Word"
begin

unbundle bit_operations_syntax

section \<open>IENA packet codec\<close>

text \<open>
  A shallow embedding of \<^verbatim>\<open>iena_multicast_sender.py\<close> and
  \<^verbatim>\<open>iena_multicast_receiver.py\<close>.

  Python \<^verbatim>\<open>bytes\<close> are lists of 8-bit words, Python integers are \<open>int\<close>.
  A payload value is a Python float that is an IEEE-754 binary32 number; it is
  modelled by its 32-bit pattern. \<^verbatim>\<open>struct\<close> converts between the float and
  its four bytes with a C cast, which leaves every number, both zeros and both
  infinities unchanged and turns a signalling NaN into the quiet NaN with the same
  sign and payload.
  Every exception the source can raise is a value of \<open>error\<close>.
\<close>

type_synonym byte = "8 word"
type_synonym float32 = "32 word"

datatype error = StructError | KeyError | IndexError

definition IENA_TRAILER :: int where
  "IENA_TRAILER = 0xDEAD"

definition HEADER_SIZE :: int where
  "HEADER_SIZE = 16"

definition TRAILER_SIZE :: int where
  "TRAILER_SIZE = 2"

subsection \<open>The conversion of format \<^verbatim>\<open>f\<close>\<close>

text \<open>
  A NaN has all exponent bits set and a fraction that is not zero; it is quiet when
  the most significant fraction bit is set. The cast between double and float, in
  either direction, sets that bit on a NaN and changes no other value.
\<close>

definition is_nan :: "float32 \<Rightarrow> bool" where
  "is_nan x = (x AND 0x7F800000 = 0x7F800000 \<and> x AND 0x007FFFFF \<noteq> 0)"

definition quiet_nan :: "float32 \<Rightarrow> float32" where
  "quiet_nan x = (if is_nan x then x OR 0x00400000 else x)"

subsection \<open>\<^verbatim>\<open>struct.pack\<close>\<close>

text \<open>Big-endian bytes of an unsigned value (formats \<^verbatim>\<open>>H\<close>, \<^verbatim>\<open>>I\<close>, \<^verbatim>\<open>>f\<close>).\<close>

definition u16_bytes :: "int \<Rightarrow> byte list" where
  "u16_bytes v = [word_of_int (v div 2 ^ 8), word_of_int v]"

definition u32_bytes :: "int \<Rightarrow> byte list" where
  "u32_bytes v =
     [word_of_int (v div 2 ^ 24), word_of_int (v div 2 ^ 16), word_of_int (v div 2 ^ 8), word_of_int v]"

text \<open>Format \<^verbatim>\<open>>f\<close>: the value is cast to a float, whose four bytes are written.\<close>

definition f32_bytes :: "float32 \<Rightarrow> byte list" where
  "f32_bytes x = u32_bytes (uint (quiet_nan x))"

definition in_u16 :: "int \<Rightarrow> bool" where
  "in_u16 v = (0 \<le> v \<and> v < 2 ^ 16)"

definition in_u32 :: "int \<Rightarrow> bool" where
  "in_u32 v = (0 \<le> v \<and> v < 2 ^ 32)"

text \<open>\<^verbatim>\<open>struct.pack('>H', v)\<close>: raises \<^verbatim>\<open>struct.error\<close> when \<open>v\<close> is out of range.\<close>

definition pack_H :: "int \<Rightarrow> error + byte list" where
  "pack_H v = (if in_u16 v then Inr (u16_bytes v) else Inl StructError)"

text \<open>\<^verbatim>\<open>struct.pack('>HH I HH HH', ...)\<close>: seven range-checked fields, 16 bytes.\<close>

definition pack_header :: "int \<Rightarrow> int \<Rightarrow> int \<Rightarrow> int \<Rightarrow> int \<Rightarrow> int \<Rightarrow> int \<Rightarrow> error + byte list" where
  "pack_header key size_words time_high time_low status seq n2 =
     (if in_u16 key \<and> in_u16 size_words \<and> in_u32 time_high \<and> in_u16 time_low
         \<and> in_u16 status \<and> in_u16 seq \<and> in_u16 n2
      then Inr (u16_bytes key @ u16_bytes size_words @ u32_bytes time_high @ u16_bytes time_low
                @ u16_bytes status @ u16_bytes seq @ u16_bytes n2)
      else Inl StructError)"

text \<open>
  \<^verbatim>\<open>struct.pack(f'>{num_params}f', *values)\<close>: the format is rejected for a negative
  count, and the number of arguments must be the count.
\<close>

definition pack_floats :: "int \<Rightarrow> float32 list \<Rightarrow> error + byte list" where
  "pack_floats num_params values =
     (if num_params < 0 \<or> int (length values) \<noteq> num_params then Inl StructError
      else Inr (concat (map f32_bytes values)))"

subsection \<open>\<^verbatim>\<open>build_iena_packet\<close> (sender)\<close>

text \<open>
  The wall clock is an input: \<open>us_since_midnight\<close> is the value the source computes
  from \<^verbatim>\<open>datetime.now()\<close>.
\<close>

definition build_iena_packet :: "int \<Rightarrow> int \<Rightarrow> int \<Rightarrow> float32 list \<Rightarrow> int \<Rightarrow> error + byte list" where
  "build_iena_packet us_since_midnight key sequence values num_params =
     (let time_high = us_since_midnight AND 0xFFFFFFFF;
          time_low = 0
      in (case pack_floats num_params values of
           Inl e \<Rightarrow> Inl e
         | Inr payload \<Rightarrow>
             let total_bytes = 16 + int (length payload) + 2;
                 size_words = total_bytes div 2;
                 status = 0
             in (case pack_header key size_words time_high time_low status
                        (sequence AND 0xFFFF) num_params of
                   Inl e \<Rightarrow> Inl e
                 | Inr header \<Rightarrow>
                     (case pack_H IENA_TRAILER of
                        Inl e \<Rightarrow> Inl e
                      | Inr trailer \<Rightarrow> Inr (header @ payload @ trailer)))))"

subsection \<open>\<^verbatim>\<open>struct.unpack_from\<close>\<close>

text \<open>Big-endian reads at an index of the buffer.\<close>

definition be_u16 :: "byte list \<Rightarrow> nat \<Rightarrow> int" where
  "be_u16 data i = uint (data ! i) * 2 ^ 8 + uint (data ! (i + 1))"

definition be_u32 :: "byte list \<Rightarrow> nat \<Rightarrow> int" where
  "be_u32 data i =
     uint (data ! i) * 2 ^ 24 + uint (data ! (i + 1)) * 2 ^ 16
       + uint (data ! (i + 2)) * 2 ^ 8 + uint (data ! (i + 3))"

text \<open>Format \<^verbatim>\<open>>f\<close>: the four bytes are read as a float, which is cast to a double.\<close>

definition be_f32 :: "byte list \<Rightarrow> nat \<Rightarrow> float32" where
  "be_f32 data i = quiet_nan (word_of_int (be_u32 data i))"

text \<open>
  The offset rule of \<^verbatim>\<open>unpack_from\<close>: a negative offset counts from the end of the
  buffer, and \<^verbatim>\<open>struct.error\<close> is raised unless \<open>sz\<close> bytes are available at the
  resolved offset. The result is the index where reading starts.
\<close>

definition resolve_offset :: "nat \<Rightarrow> byte list \<Rightarrow> int \<Rightarrow> error + nat" where
  "resolve_offset sz data offset =
     (let n = int (length data);
          off = (if offset < 0 then offset + n else offset)
      in if off < 0 \<or> n - off < int sz then Inl StructError else Inr (nat off))"

text \<open>\<^verbatim>\<open>struct.unpack_from('>H', data, offset)\<close>.\<close>

definition unpack_from_H :: "byte list \<Rightarrow> int \<Rightarrow> error + int" where
  "unpack_from_H data offset =
     (case resolve_offset 2 data offset of
        Inl e \<Rightarrow> Inl e
      | Inr i \<Rightarrow> Inr (be_u16 data i))"

text \<open>\<^verbatim>\<open>struct.unpack_from('>HH I HH HH', data, offset)\<close>.\<close>

definition unpack_from_header ::
  "byte list \<Rightarrow> int \<Rightarrow> error + (int \<times> int \<times> int \<times> int \<times> int \<times> int \<times> int)" where
  "unpack_from_header data offset =
     (case resolve_offset 16 data offset of
        Inl e \<Rightarrow> Inl e
      | Inr i \<Rightarrow>
          Inr (be_u16 data i, be_u16 data (i + 2), be_u32 data (i + 4), be_u16 data (i + 8),
               be_u16 data (i + 10), be_u16 data (i + 12), be_u16 data (i + 14)))"

text \<open>
  \<^verbatim>\<open>struct.unpack_from(f'>{num_params}f', data, offset)\<close>: a negative count is a bad
  format string.
\<close>

definition unpack_from_floats :: "int \<Rightarrow> byte list \<Rightarrow> int \<Rightarrow> error + float32 list" where
  "unpack_from_floats num_params data offset =
     (if num_params < 0 then Inl StructError
      else (case resolve_offset (4 * nat num_params) data offset of
              Inl e \<Rightarrow> Inl e
            | Inr i \<Rightarrow> Inr (map (\<lambda>k. be_f32 data (i + 4 * k)) [0..<nat num_params])))"

subsection \<open>\<^verbatim>\<open>parse_iena_packet\<close> (receiver)\<close>

text \<open>The dictionary the parser returns. \<open>None\<close> is the source's \<^verbatim>\<open>None\<close> (malformed).\<close>

record iena_packet =
  pkt_key :: int
  pkt_size :: int
  pkt_time_us :: int
  pkt_status :: int
  pkt_sequence :: int
  pkt_n_params :: int
  pkt_values :: "float32 list"

definition parse_iena_packet :: "byte list \<Rightarrow> int \<Rightarrow> error + iena_packet option" where
  "parse_iena_packet data num_params =
     (let payload_size = num_params * 4;
          expected_size = HEADER_SIZE + payload_size + TRAILER_SIZE
      in if int (length data) < expected_size then Inr None
         else (case unpack_from_header data 0 of
                Inl e \<Rightarrow> Inl e
              | Inr (key, size_words, time_high, time_low, status, seq, n2) \<Rightarrow>
                  (case unpack_from_H data (HEADER_SIZE + payload_size) of
                     Inl e \<Rightarrow> Inl e
                   | Inr trailer \<Rightarrow>
                       if trailer \<noteq> IENA_TRAILER then Inr None
                       else (case unpack_from_floats num_params data HEADER_SIZE of
                               Inl e \<Rightarrow> Inl e
                             | Inr values \<Rightarrow>
                                 Inr (Some \<lparr>pkt_key = key, pkt_size = size_words,
                                            pkt_time_us = time_high, pkt_status = status,
                                            pkt_sequence = seq, pkt_n_params = n2,
                                            pkt_values = values\<rparr>)))))"

subsection \<open>Equality of 32-bit floats\<close>

text \<open>
  Python's \<^verbatim>\<open>==\<close> on two floats that are binary32 values, read off the bit
  patterns: a NaN equals nothing, not even itself; the two zeros are equal; every
  other value equals only itself.
\<close>

definition float32_eq :: "float32 \<Rightarrow> float32 \<Rightarrow> bool" where
  "float32_eq x y =
     (\<not> is_nan x \<and> \<not> is_nan y \<and> (x = y \<or> (x AND 0x7FFFFFFF = 0 \<and> y AND 0x7FFFFFFF = 0)))"

section \<open>The filtered receiver\<close>

subsection \<open>\<^verbatim>\<open>collections.deque(maxlen=...)\<close>\<close>

record 'a deque =
  maxlen :: nat
  items :: "'a list"

definition deque_new :: "nat \<Rightarrow> 'a deque" where
  "deque_new m = \<lparr>maxlen = m, items = []\<rparr>"

text \<open>\<^verbatim>\<open>append\<close> adds on the right and, when the bound is exceeded, drops the leftmost entry.\<close>

definition deque_append :: "'a deque \<Rightarrow> 'a \<Rightarrow> 'a deque" where
  "deque_append d x =
     (let xs = items d @ [x]
      in d\<lparr>items := (if length xs > maxlen d then tl xs else xs)\<rparr>)"

subsection \<open>State of \<^verbatim>\<open>IenaMulticastReceiver\<close>\<close>

text \<open>
  Timestamps are Python floats. The model is polymorphic in the type \<open>'t\<close> of time
  values and uses only its comparison, subtraction and addition, so nothing below
  depends on an arithmetic law that floating point lacks. The socket parameters
  (\<^verbatim>\<open>groups\<close>, \<^verbatim>\<open>port\<close>, \<^verbatim>\<open>iface\<close>) and the lock are not part of the buffer
  state; each operation below is one critical section.
\<close>

record 't receiver =
  key_filter :: int
  window :: 't
  param_names :: "string list"
  num_params :: int
  timestamps :: "'t deque"
  series :: "string \<rightharpoonup> float32 deque"
  packet_count :: int
  running :: bool

text \<open>\<^verbatim>\<open>__init__\<close>: one deque per name of the dictionary comprehension, all with \<^verbatim>\<open>maxlen = 10_000\<close>.\<close>

definition init_receiver :: "int \<Rightarrow> 't \<Rightarrow> string list \<Rightarrow> 't receiver" where
  "init_receiver key_filter' window' param_names' =
     (let maxlen' = 10000
      in \<lparr>key_filter = key_filter', window = window', param_names = param_names',
          num_params = int (length param_names'),
          timestamps = deque_new maxlen',
          series = map_of (map (\<lambda>n. (n, deque_new maxlen')) param_names'),
          packet_count = 0, running = True\<rparr>)"

definition stop :: "'t receiver \<Rightarrow> 't receiver" where
  "stop r = r\<lparr>running := False\<rparr>"

subsection \<open>\<^verbatim>\<open>_listen\<close>\<close>

text \<open>
  What \<^verbatim>\<open>sock.recvfrom(4096)\<close> yields: a timeout, or a datagram with its source
  address. Other socket errors, which end the loop with an exception of the
  transport, are outside the model.
\<close>

datatype recv_result = Timeout | Datagram "byte list" string int

text \<open>
  The loop \<^verbatim>\<open>for i, name in enumerate(self.param_names)\<close>: a missing dictionary key
  raises \<^verbatim>\<open>KeyError\<close>, an index beyond the decoded values \<^verbatim>\<open>IndexError\<close>.
\<close>

fun append_values ::
  "(string \<rightharpoonup> float32 deque) \<Rightarrow> (nat \<times> string) list \<Rightarrow> float32 list
     \<Rightarrow> error + (string \<rightharpoonup> float32 deque)" where
  "append_values ser [] values = Inr ser"
| "append_values ser ((i, name) # rest) values =
     (case ser name of
        None \<Rightarrow> Inl KeyError
      | Some d \<Rightarrow>
          if i < length values
          then append_values (ser(name \<mapsto> deque_append d (values ! i))) rest values
          else Inl IndexError)"

text \<open>
  One iteration of the \<^verbatim>\<open>while self._running\<close> loop: \<open>ev\<close> is the outcome of
  \<^verbatim>\<open>recvfrom\<close>, \<open>now\<close> the reading of \<^verbatim>\<open>time.time()\<close>.
\<close>

definition listen_step :: "'t receiver \<Rightarrow> recv_result \<Rightarrow> 't \<Rightarrow> error + 't receiver" where
  "listen_step r ev now =
     (case ev of
        Timeout \<Rightarrow> Inr r
      | Datagram data src_ip src_port \<Rightarrow>
          (case parse_iena_packet data (num_params r) of
             Inl e \<Rightarrow> Inl e
           | Inr None \<Rightarrow> Inr r
           | Inr (Some pkt) \<Rightarrow>
               if pkt_key pkt \<noteq> key_filter r then Inr r
               else (case append_values (series r) (enumerate 0 (param_names r)) (pkt_values pkt) of
                       Inl e \<Rightarrow> Inl e
                     | Inr ser \<Rightarrow>
                         Inr (r\<lparr>timestamps := deque_append (timestamps r) now,
                                series := ser,
                                packet_count := packet_count r + 1\<rparr>))))"

text \<open>The loop over the receive outcomes that arrive before \<^verbatim>\<open>stop\<close>.\<close>

fun listen :: "'t receiver \<Rightarrow> (recv_result \<times> 't) list \<Rightarrow> error + 't receiver" where
  "listen r [] = Inr r"
| "listen r ((ev, now) # rest) =
     (if running r
      then (case listen_step r ev now of
              Inl e \<Rightarrow> Inl e
            | Inr r' \<Rightarrow> listen r' rest)
      else Inr r)"

subsection \<open>\<^verbatim>\<open>get_data\<close>\<close>

text \<open>
  NumPy's \<^verbatim>\<open>arr[mask]\<close> with a boolean mask: \<^verbatim>\<open>IndexError\<close> when the lengths
  differ, otherwise the entries at the positions where the mask is true.
\<close>

definition bool_index :: "'a list \<Rightarrow> bool list \<Rightarrow> error + 'a list" where
  "bool_index arr msk =
     (if length arr \<noteq> length msk then Inl IndexError
      else Inr (map fst (filter snd (zip arr msk))))"

text \<open>The loop \<^verbatim>\<open>for name in var_names\<close> that fills \<^verbatim>\<open>result\<close>.\<close>

fun collect_series ::
  "(string \<rightharpoonup> float32 deque) \<Rightarrow> bool list \<Rightarrow> string list \<Rightarrow> (string \<rightharpoonup> float32 list)
     \<Rightarrow> error + (string \<rightharpoonup> float32 list)" where
  "collect_series ser msk [] result = Inr result"
| "collect_series ser msk (name # rest) result =
     (case ser name of
        None \<Rightarrow> Inl KeyError
      | Some d \<Rightarrow>
          (case bool_index (items d) msk of
             Inl e \<Rightarrow> Inl e
           | Inr arr \<Rightarrow> collect_series ser msk rest (result(name \<mapsto> arr))))"

definition get_data ::
  "('t::{minus,ord}) receiver \<Rightarrow> string list \<Rightarrow> error + ('t list \<times> (string \<rightharpoonup> float32 list))" where
  "get_data r var_names =
     (if items (timestamps r) = [] then Inr ([], map_of (map (\<lambda>n. (n, [])) var_names))
      else
        let ts = items (timestamps r);
            now = last ts;
            cutoff = now - window r;
            msk = map (\<lambda>t. t \<ge> cutoff) ts
        in (case bool_index ts msk of
              Inl e \<Rightarrow> Inl e
            | Inr sel \<Rightarrow>
                let rel = map (\<lambda>t. t - now) sel
                in (case collect_series (series r) msk var_names Map.empty of
                      Inl e \<Rightarrow> Inl e
                    | Inr result \<Rightarrow> Inr (rel, result))))"

section \<open>Stream discovery\<close>

record 't stream_info =
  st_count :: int
  st_first :: 't
  st_last :: 't

type_synonym 't streams = "(int \<times> string) \<rightharpoonup> 't stream_info"

text \<open>
  What one iteration of the scan loop observes: the reading of \<^verbatim>\<open>time.monotonic()\<close>
  in the loop condition, the outcome of \<^verbatim>\<open>recvfrom\<close>, and the reading of
  \<^verbatim>\<open>time.monotonic()\<close> taken after a successful parse.
\<close>

record 't observation =
  clock_check :: 't
  received :: recv_result
  clock_now :: 't

text \<open>The body of the loop, after the deadline test.\<close>

definition discover_step :: "int \<Rightarrow> 't streams \<Rightarrow> recv_result \<Rightarrow> 't \<Rightarrow> error + 't streams" where
  "discover_step num_params' strs ev now =
     (case ev of
        Timeout \<Rightarrow> Inr strs
      | Datagram data src_ip src_port \<Rightarrow>
          (case parse_iena_packet data num_params' of
             Inl e \<Rightarrow> Inl e
           | Inr None \<Rightarrow> Inr strs
           | Inr (Some pkt) \<Rightarrow>
               let ident = (pkt_key pkt, src_ip);
                   info = (case strs ident of
                             None \<Rightarrow> \<lparr>st_count = 0, st_first = now, st_last = now\<rparr>
                           | Some i \<Rightarrow> i)
               in Inr (strs(ident \<mapsto> info\<lparr>st_count := st_count info + 1, st_last := now\<rparr>))))"

text \<open>
  \<^verbatim>\<open>while time.monotonic() < deadline\<close>. The environment \<open>env\<close> gives the observation
  of each iteration; the loop need not terminate, so it is a partial function and
  \<open>None\<close> stands for running forever.
\<close>

partial_function (option) discover_loop ::
  "(nat \<Rightarrow> ('t::ord) observation) \<Rightarrow> int \<Rightarrow> 't \<Rightarrow> nat \<Rightarrow> 't streams \<Rightarrow> (error + 't streams) option" where
  "discover_loop env num_params' deadline i strs =
     (if clock_check (env i) < deadline
      then (case discover_step num_params' strs (received (env i)) (clock_now (env i)) of
              Inl e \<Rightarrow> Some (Inl e)
            | Inr strs' \<Rightarrow> discover_loop env num_params' deadline (Suc i) strs')
      else Some (Inr strs))"

declare discover_loop.simps [code]

text \<open>
  \<^verbatim>\<open>discover_streams\<close>: \<open>start\<close> is the reading of \<^verbatim>\<open>time.monotonic()\<close> that fixes
  the deadline.
\<close>

definition discover_streams ::
  "(nat \<Rightarrow> ('t::{plus,ord}) observation) \<Rightarrow> 't \<Rightarrow> 't \<Rightarrow> int \<Rightarrow> (error + 't streams) option" where
  "discover_streams env start duration num_params' =
     (let deadline = start + duration
      in discover_loop env num_params' deadline 0 Map.empty)"

section \<open>Configuration checks of the two \<^verbatim>\<open>main\<close> functions\<close>

text \<open>
  Both programs validate their arguments before they create a socket;
  \<^verbatim>\<open>parser.error\<close> ends the run. The outcome of the validation is either that, or
  the parameter names and the selected variables the run goes on with.
\<close>

datatype config_outcome = ParserError | Proceed "string list" "string list"

definition default_param_names :: "string list" where
  "default_param_names = map (\<lambda>i. [char_of (of_char CHR ''a'' + i)]) [0..<26::nat]"

text \<open>
  Receiver: \<open>config\<close> is \<open>None\<close> without \<^verbatim>\<open>--config\<close>, \<open>Some None\<close> when
  \<^verbatim>\<open>load_xidml\<close> raises, and \<open>Some (Some names)\<close> when it returns \<open>names\<close>;
  \<open>vars\<close> is \<open>None\<close> when \<^verbatim>\<open>args.vars\<close> is empty or absent, and otherwise the
  list \<^verbatim>\<open>[v.strip() for v in args.vars.split(',')]\<close>.
\<close>

definition receiver_main_config :: "string list option option \<Rightarrow> string list option \<Rightarrow> config_outcome" where
  "receiver_main_config config vars =
     (case (case config of
              Some None \<Rightarrow> None
            | Some (Some names) \<Rightarrow> Some names
            | None \<Rightarrow> Some default_param_names) of
        None \<Rightarrow> ParserError
      | Some param_names' \<Rightarrow>
          let selected = (case vars of Some vs \<Rightarrow> vs | None \<Rightarrow> take 3 param_names')
          in if \<exists>v \<in> set selected. v \<notin> set param_names' then ParserError
             else Proceed param_names' selected)"

text \<open>
  Sender: \<open>vars\<close> is the list \<^verbatim>\<open>[v.strip() for v in args.vars.split(',')]\<close>, from
  which the empty names are dropped.
\<close>

definition sender_main_config :: "string list \<Rightarrow> config_outcome" where
  "sender_main_config vars =
     (let param_names' = filter (\<lambda>v. v \<noteq> []) vars;
          num_params' = length param_names'
      in if num_params' = 0 then ParserError else Proceed param_names' [])"

section \<open>Notions used in the statements\<close>

text \<open>
  The wire layout of the interface table: key, size in 16-bit words, time, two zero
  words, sequence, declared count, the values, the trailer.
\<close>

definition packet_bytes :: "int \<Rightarrow> int \<Rightarrow> int \<Rightarrow> float32 list \<Rightarrow> byte list" where
  "packet_bytes t key seq vs =
     u16_bytes key @ u16_bytes (9 + 2 * int (length vs)) @ u32_bytes (t mod 2 ^ 32)
       @ u16_bytes 0 @ u16_bytes 0 @ u16_bytes seq @ u16_bytes (int (length vs))
       @ concat (map f32_bytes vs) @ u16_bytes 0xDEAD"

text \<open>The \<open>n\<close> most recent entries of a sequence, in insertion order.\<close>

definition lastn :: "nat \<Rightarrow> 'a list \<Rightarrow> 'a list" where
  "lastn n xs = drop (length xs - n) xs"

text \<open>Appending several values to a deque, one after the other.\<close>

definition deque_extend :: "'a deque \<Rightarrow> 'a list \<Rightarrow> 'a deque" where
  "deque_extend d xs = fold (\<lambda>x d'. deque_append d' x) xs d"

text \<open>
  The samples one decoded packet contributes to the buffer of \<open>name\<close>: the values at
  the positions where \<open>name\<close> occurs in the configured names (exactly one value when
  the names are pairwise distinct).
\<close>

definition samples_for :: "string \<Rightarrow> string list \<Rightarrow> float32 list \<Rightarrow> float32 list" where
  "samples_for name names vals = map snd (filter (\<lambda>p. fst p = name) (zip names vals))"

text \<open>
  A matching datagram: the packet a receive outcome decodes to when it carries the
  receiver's key; \<open>None\<close> for a timeout, a malformed datagram or another key.
\<close>

definition accepted :: "'t receiver \<Rightarrow> recv_result \<Rightarrow> iena_packet option" where
  "accepted r ev =
     (case ev of
        Timeout \<Rightarrow> None
      | Datagram data src_ip src_port \<Rightarrow>
          (case parse_iena_packet data (num_params r) of
             Inr (Some pkt) \<Rightarrow> if pkt_key pkt = key_filter r then Some pkt else None
           | _ \<Rightarrow> None))"

text \<open>
  The parallel-buffer invariant: every configured name has a buffer with the bound
  and the length of the timestamps buffer.
\<close>

definition buffers_parallel :: "'t receiver \<Rightarrow> bool" where
  "buffers_parallel r =
     (\<forall>n \<in> set (param_names r).
        case series r n of
          None \<Rightarrow> False
        | Some d \<Rightarrow> maxlen d = maxlen (timestamps r)
                     \<and> length (items d) = length (items (timestamps r)))"

text \<open>
  The index set of the display window: the positions whose timestamp is not older
  than the window, counted back from the last stored timestamp.
\<close>

definition window_indices :: "('t::{minus,ord}) receiver \<Rightarrow> nat list" where
  "window_indices r =
     (let ts = items (timestamps r)
      in filter (\<lambda>i. ts ! i \<ge> last ts - window r) [0..<length ts])"

text \<open>
  The scan loop run over a finite list of observations: the body applied to each in
  turn, stopping at the first exception.
\<close>

fun discover_steps :: "int \<Rightarrow> 't streams \<Rightarrow> 't observation list \<Rightarrow> error + 't streams" where
  "discover_steps n strs [] = Inr strs"
| "discover_steps n strs (ob # obs) =
     (case discover_step n strs (received ob) (clock_now ob) of
        Inl e \<Rightarrow> Inl e
      | Inr strs' \<Rightarrow> discover_steps n strs' obs)"

text \<open>
  The stream identity of a receive outcome: the decoded key and the source address
  of a datagram that decodes; \<open>None\<close> for a timeout or a datagram that does not.
\<close>

definition identity_of :: "int \<Rightarrow> recv_result \<Rightarrow> (int \<times> string) option" where
  "identity_of n ev =
     (case ev of
        Timeout \<Rightarrow> None
      | Datagram data src_ip src_port \<Rightarrow>
          (case parse_iena_packet data n of
             Inr (Some pkt) \<Rightarrow> Some (pkt_key pkt, src_ip)
           | _ \<Rightarrow> None))"

text \<open>The arrival times of the decoded datagrams of one identity, in order.\<close>

definition arrivals :: "int \<Rightarrow> int \<times> string \<Rightarrow> 't observation list \<Rightarrow> 't list" where
  "arrivals n ident obs =
     map clock_now (filter (\<lambda>ob. identity_of n (received ob) = Some ident) obs)"

text \<open>
  A sample of scan traffic, one observation per second: five packets of key
  \<open>0x0A01\<close> from 10.0.0.1, a timeout, a datagram too short to decode, then packets
  of key \<open>0x0B02\<close> from 10.0.0.2 without end.
\<close>

definition sample_traffic :: "nat \<Rightarrow> int observation" where
  "sample_traffic i =
     (if i < 5
      then \<lparr>clock_check = int i,
            received = Datagram (packet_bytes 0 0x0A01 (int i mod 65536) [11]) ''10.0.0.1'' 5001,
            clock_now = int i\<rparr>
      else if i = 5 then \<lparr>clock_check = 5, received = Timeout, clock_now = 5\<rparr>
      else if i = 6
      then \<lparr>clock_check = 6, received = Datagram [0xDE, 0xAD] ''10.0.0.3'' 5001, clock_now = 6\<rparr>
      else \<lparr>clock_check = int i,
            received = Datagram (packet_bytes 0 0x0B02 (int i mod 65536) [12]) ''10.0.0.2'' 5001,
            clock_now = int i\<rparr>)"

section \<open>Verification of the codec\<close>

lemma resolve_offset_ok:
  "0 \<le> off \<Longrightarrow> off + int sz \<le> int (length data) \<Longrightarrow> resolve_offset sz data off = Inr (nat off)"
  by (simp add: resolve_offset_def Let_def)

lemma parse_long_enough:
  assumes n: "0 \<le> n" and len: "16 + 4 * n + 2 \<le> int (length data)"
  shows "parse_iena_packet data n =
    (if be_u16 data (nat (16 + 4 * n)) \<noteq> 0xDEAD then Inr None
     else Inr (Some \<lparr>pkt_key = be_u16 data 0, pkt_size = be_u16 data 2,
                     pkt_time_us = be_u32 data 4, pkt_status = be_u16 data 10,
                     pkt_sequence = be_u16 data 12, pkt_n_params = be_u16 data 14,
                     pkt_values = map (\<lambda>k. be_f32 data (16 + 4 * k)) [0..<nat n]\<rparr>))"
proof -
  have h: "resolve_offset 16 data 0 = Inr 0"
    using resolve_offset_ok [of 0 16 data] n len by simp
  have t: "resolve_offset 2 data (16 + n * 4) = Inr (nat (16 + 4 * n))"
    using resolve_offset_ok [of "16 + n * 4" 2 data] n len by simp
  have f: "resolve_offset (4 * nat n) data 16 = Inr 16"
    using resolve_offset_ok [of 16 "4 * nat n" data] n len by simp
  have two: "Suc (Suc 0) = 2" by simp
  show ?thesis
    using n len
    by (simp add: parse_iena_packet_def HEADER_SIZE_def TRAILER_SIZE_def IENA_TRAILER_def
        unpack_from_header_def unpack_from_H_def unpack_from_floats_def h t f two
        del: add_2_eq_Suc add_2_eq_Suc')
qed

lemma parse_too_short:
  "int (length data) < 16 + 4 * n + 2 \<Longrightarrow> parse_iena_packet data n = Inr None"
  by (simp add: parse_iena_packet_def HEADER_SIZE_def TRAILER_SIZE_def)

lemma length_u16_bytes [simp]: "length (u16_bytes v) = 2"
  by (simp add: u16_bytes_def)

lemma length_u32_bytes [simp]: "length (u32_bytes v) = 4"
  by (simp add: u32_bytes_def)

lemma length_f32_bytes [simp]: "length (f32_bytes x) = 4"
  by (simp add: f32_bytes_def)

lemma length_concat_f32: "length (concat (map f32_bytes vs)) = 4 * length vs"
  by (induction vs) simp_all

lemma u16_split:
  "0 \<le> v \<Longrightarrow> v < 65536 \<Longrightarrow> v div 256 mod 256 * 256 + v mod 256 = (v::int)"
  by simp

lemma u32_split:
  assumes v: "0 \<le> v" "v < 4294967296"
  shows "v div 16777216 mod 256 * 16777216 + v div 65536 mod 256 * 65536
           + v div 256 mod 256 * 256 + v mod 256 = (v::int)"
proof -
  have a: "v div 256 * 256 + v mod 256 = v"
    by (rule div_mult_mod_eq)
  have b: "v div 256 = v div 65536 * 256 + v div 256 mod 256"
    using div_mult_mod_eq [of "v div 256" 256] zdiv_zmult2_eq [of 256 v 256] by simp
  have c: "v div 65536 = v div 16777216 * 256 + v div 65536 mod 256"
    using div_mult_mod_eq [of "v div 65536" 256] zdiv_zmult2_eq [of 256 v 65536] by simp
  have d: "v div 16777216 mod 256 = v div 16777216"
    using v by simp
  have e: "v div 16777216 * 16777216 + v div 65536 mod 256 * 65536
             + v div 256 mod 256 * 256 + v mod 256 = v"
    using a b c by linarith
  show ?thesis
    by (simp only: d) (rule e)
qed

lemma be_u16_bytes:
  assumes "in_u16 v"
  shows "be_u16 (A @ u16_bytes v @ B) (length A) = v"
  using assms
  by (simp add: be_u16_def u16_bytes_def in_u16_def nth_append uint_word_of_int u16_split)

lemma be_u32_bytes:
  assumes "in_u32 v"
  shows "be_u32 (A @ u32_bytes v @ B) (length A) = v"
  using assms
  by (simp add: be_u32_def u32_bytes_def in_u32_def nth_append uint_word_of_int u32_split)

lemma quiet_nan_id: "\<not> is_nan x \<Longrightarrow> quiet_nan x = x"
  by (simp add: quiet_nan_def)

lemma is_nan_or_quiet: "is_nan x \<Longrightarrow> is_nan (x OR 0x00400000)"
  by (simp add: is_nan_def bit.conj_disj_distrib2 or_eq_0_iff)

lemma is_nan_quiet_nan [simp]: "is_nan (quiet_nan x) = is_nan x"
  by (simp add: quiet_nan_def is_nan_or_quiet)

lemma quiet_nan_idem [simp]: "quiet_nan (quiet_nan x) = quiet_nan x"
  by (simp add: quiet_nan_def is_nan_or_quiet or.assoc)

lemma map_quiet_nan_id: "\<forall>v \<in> set vs. \<not> is_nan v \<Longrightarrow> map quiet_nan vs = vs"
  by (induction vs) (simp_all add: quiet_nan_id)

lemma be_f32_bytes: "be_f32 (A @ f32_bytes x @ B) (length A) = quiet_nan x"
proof -
  have "in_u32 (uint (quiet_nan x))"
    using uint_lt2p [of "quiet_nan x"] by (simp add: in_u32_def)
  then show ?thesis
    by (simp add: be_f32_def f32_bytes_def be_u32_bytes)
qed

lemma be_f32_concat:
  "k < length vs \<Longrightarrow>
     be_f32 (A @ concat (map f32_bytes vs) @ B) (length A + 4 * k) = quiet_nan (vs ! k)"
proof (induction vs arbitrary: A k)
  case Nil
  then show ?case by simp
next
  case (Cons v vs)
  show ?case
  proof (cases k)
    case 0
    then show ?thesis
      using be_f32_bytes [of A v "concat (map f32_bytes vs) @ B"] by simp
  next
    case (Suc j)
    then have "j < length vs" using Cons.prems by simp
    from Cons.IH [OF this, of "A @ f32_bytes v"] show ?thesis
      using Suc by (simp add: add.assoc)
  qed
qed

lemma and_ffff: "(x::int) AND 0xFFFF = x mod 2 ^ 16"
  using take_bit_eq_mask [of 16 x] by (simp add: take_bit_eq_mod mask_eq_exp_minus_1)

lemma and_ffffffff: "(x::int) AND 0xFFFFFFFF = x mod 2 ^ 32"
  using take_bit_eq_mask [of 32 x] by (simp add: take_bit_eq_mod mask_eq_exp_minus_1)

lemma build_ok:
  assumes "in_u16 key" "in_u16 seq" "length vs < 32764"
  shows "build_iena_packet t key seq vs (int (length vs)) = Inr (packet_bytes t key seq vs)"
proof -
  have s: "seq mod 65536 = seq" using assms(2) by (simp add: in_u16_def)
  have sz: "(18 + 4 * int (length vs)) div 2 = 9 + 2 * int (length vs)" by simp
  show ?thesis
    using assms
    by (simp add: build_iena_packet_def pack_floats_def pack_header_def pack_H_def Let_def
        IENA_TRAILER_def and_ffff and_ffffffff in_u16_def in_u32_def length_concat_f32
        s sz packet_bytes_def)
qed

lemma length_packet_bytes: "length (packet_bytes t key seq vs) = 18 + 4 * length vs"
  by (simp add: packet_bytes_def length_concat_f32)

lemma packet_key: "in_u16 key \<Longrightarrow> be_u16 (packet_bytes t key seq vs) 0 = key"
  using be_u16_bytes [of key "[]"] by (simp add: packet_bytes_def)

lemma packet_seq: "in_u16 seq \<Longrightarrow> be_u16 (packet_bytes t key seq vs) 12 = seq"
  using be_u16_bytes [of seq "u16_bytes key @ u16_bytes (9 + 2 * int (length vs))
      @ u32_bytes (t mod 2 ^ 32) @ u16_bytes 0 @ u16_bytes 0"
      "u16_bytes (int (length vs)) @ concat (map f32_bytes vs) @ u16_bytes 0xDEAD"]
  by (simp add: packet_bytes_def)

lemma packet_n2:
  "length vs < 65536 \<Longrightarrow> be_u16 (packet_bytes t key seq vs) 14 = int (length vs)"
  using be_u16_bytes [of "int (length vs)" "u16_bytes key @ u16_bytes (9 + 2 * int (length vs))
      @ u32_bytes (t mod 2 ^ 32) @ u16_bytes 0 @ u16_bytes 0 @ u16_bytes seq"
      "concat (map f32_bytes vs) @ u16_bytes 0xDEAD"]
  by (simp add: packet_bytes_def in_u16_def)

lemma packet_trailer: "be_u16 (packet_bytes t key seq vs) (16 + 4 * length vs) = 0xDEAD"
  using be_u16_bytes [of "0xDEAD" "u16_bytes key @ u16_bytes (9 + 2 * int (length vs))
      @ u32_bytes (t mod 2 ^ 32) @ u16_bytes 0 @ u16_bytes 0 @ u16_bytes seq
      @ u16_bytes (int (length vs)) @ concat (map f32_bytes vs)" "[]"]
  by (simp add: packet_bytes_def length_concat_f32 in_u16_def)

lemma packet_value:
  "k < length vs
     \<Longrightarrow> be_f32 (packet_bytes t key seq vs) (16 + 4 * k) = quiet_nan (vs ! k)"
  using be_f32_concat [of k vs "u16_bytes key @ u16_bytes (9 + 2 * int (length vs))
      @ u32_bytes (t mod 2 ^ 32) @ u16_bytes 0 @ u16_bytes 0 @ u16_bytes seq
      @ u16_bytes (int (length vs))" "u16_bytes 0xDEAD"]
  by (simp add: packet_bytes_def)

lemma packet_values:
  "map (\<lambda>k. be_f32 (packet_bytes t key seq vs) (16 + 4 * k)) [0..<length vs]
     = map quiet_nan vs"
  by (rule nth_equalityI) (simp_all add: packet_value)

lemma packet_size:
  "length vs < 32764 \<Longrightarrow> be_u16 (packet_bytes t key seq vs) 2 = 9 + 2 * int (length vs)"
  using be_u16_bytes [of "9 + 2 * int (length vs)" "u16_bytes key"
      "u32_bytes (t mod 2 ^ 32) @ u16_bytes 0 @ u16_bytes 0 @ u16_bytes seq
         @ u16_bytes (int (length vs)) @ concat (map f32_bytes vs) @ u16_bytes 0xDEAD"]
  by (simp add: packet_bytes_def in_u16_def)

lemma packet_time: "be_u32 (packet_bytes t key seq vs) 4 = t mod 2 ^ 32"
  using be_u32_bytes [of "t mod 2 ^ 32" "u16_bytes key @ u16_bytes (9 + 2 * int (length vs))"
      "u16_bytes 0 @ u16_bytes 0 @ u16_bytes seq
         @ u16_bytes (int (length vs)) @ concat (map f32_bytes vs) @ u16_bytes 0xDEAD"]
  by (simp add: packet_bytes_def in_u32_def)

lemma packet_status: "be_u16 (packet_bytes t key seq vs) 10 = 0"
  using be_u16_bytes [of 0 "u16_bytes key @ u16_bytes (9 + 2 * int (length vs))
      @ u32_bytes (t mod 2 ^ 32) @ u16_bytes 0"
      "u16_bytes seq @ u16_bytes (int (length vs)) @ concat (map f32_bytes vs) @ u16_bytes 0xDEAD"]
  by (simp add: packet_bytes_def in_u16_def)

lemma parse_packet_bytes:
  assumes "in_u16 key" "in_u16 seq" "length vs < 32764"
  shows "parse_iena_packet (packet_bytes t key seq vs) (int (length vs))
           = Inr (Some \<lparr>pkt_key = key, pkt_size = 9 + 2 * int (length vs),
                         pkt_time_us = t mod 2 ^ 32, pkt_status = 0, pkt_sequence = seq,
                         pkt_n_params = int (length vs), pkt_values = map quiet_nan vs\<rparr>)"
proof -
  let ?b = "packet_bytes t key seq vs"
  have l: "16 + 4 * int (length vs) + 2 \<le> int (length ?b)"
    by (simp add: length_packet_bytes)
  have trl: "be_u16 ?b (nat (16 + 4 * int (length vs))) = 0xDEAD"
    using packet_trailer [of t key seq vs] by (simp add: nat_add_distrib nat_mult_distrib)
  show ?thesis
    using parse_long_enough [OF _ l] trl assms
      packet_key [of key t seq vs] packet_seq [of seq t key vs] packet_values [of t key seq vs]
      packet_n2 [of vs t key seq] packet_size [of vs t key seq] packet_time [of t key seq vs]
      packet_status [of t key seq vs]
    by simp
qed

text \<open>
  Claim C2. For every buffer and every configured count \<open>n \<ge> 0\<close>, the parser
  returns \<^verbatim>\<open>None\<close> exactly when the buffer is shorter than \<open>16 + 4n + 2\<close> bytes or
  the big-endian 16-bit value at offset \<open>16 + 4n\<close> is not \<open>0xDEAD\<close>; it never
  raises; and in every other case (longer buffers included, whatever the declared
  size and count fields say) it returns a packet with \<open>n\<close> values.
\<close>

theorem parse_rejects_iff_malformed:
  assumes "0 \<le> n"
  shows "(parse_iena_packet data n = Inr None
            \<longleftrightarrow> int (length data) < 16 + 4 * n + 2 \<or> be_u16 data (nat (16 + 4 * n)) \<noteq> 0xDEAD)
       \<and> (\<forall>e. parse_iena_packet data n \<noteq> Inl e)
       \<and> (parse_iena_packet data n \<noteq> Inr None
            \<longrightarrow> (\<exists>p. parse_iena_packet data n = Inr (Some p) \<and> int (length (pkt_values p)) = n))"
proof (cases "int (length data) < 16 + 4 * n + 2")
  case True
  then show ?thesis by (simp add: parse_too_short)
next
  case False
  then have "16 + 4 * n + 2 \<le> int (length data)" by simp
  from parse_long_enough [OF assms this] show ?thesis using assms False by auto
qed

theorem parse_rejects_iff_malformed_witness:
  "(0::int) \<le> 1
   \<and> parse_iena_packet [0x0A,1, 0,11, 0,0,0,0, 0,0, 0,0, 0,7, 0,1, 0x3F,0x80,0,0, 0xDE,0xAD] 1 \<noteq> Inr None
   \<and> parse_iena_packet [0x0A,1, 0,11, 0,0,0,0, 0,0, 0,0, 0,7, 0,1, 0x3F,0x80,0,0, 0xDE,0xAC] 1 = Inr None
   \<and> parse_iena_packet [0x0A,1, 0,11, 0,0,0,0, 0,0, 0,0, 0,7, 0,1, 0x3F,0x80,0,0, 0xDE] 1 = Inr None"
  using parse_rejects_iff_malformed [of 1 "[0x0A,1, 0,11, 0,0,0,0, 0,0, 0,0, 0,7, 0,1, 0x3F,0x80,0,0, 0xDE,0xAD]"]
    parse_rejects_iff_malformed [of 1 "[0x0A,1, 0,11, 0,0,0,0, 0,0, 0,0, 0,7, 0,1, 0x3F,0x80,0,0, 0xDE,0xAC]"]
    parse_rejects_iff_malformed [of 1 "[0x0A,1, 0,11, 0,0,0,0, 0,0, 0,0, 0,7, 0,1, 0x3F,0x80,0,0, 0xDE]"]
  by (simp add: be_u16_def)

text \<open>
  Claim C1, amended. For every count \<open>N\<close> in \<open>[1, 64]\<close>, key and sequence in
  \<open>[0, 65536)\<close> and \<open>N\<close> binary32 values, encoding succeeds, the result has
  \<open>16 + 4N + 2\<close> bytes, and decoding it with the same count succeeds (so the trailer
  validates) and yields the same key, the same sequence and \<open>N\<close> values; when none
  of the encoded values is a NaN, the decoded values are the same under 32-bit float
  equality. A NaN is decoded as a NaN.
\<close>

theorem roundtrip_encode_decode:
  assumes "1 \<le> N" "N \<le> 64" "0 \<le> key" "key < 65536" "0 \<le> seq" "seq < 65536"
    and "int (length values) = N"
  shows "\<exists>bytes p. build_iena_packet t key seq values N = Inr bytes
           \<and> int (length bytes) = 16 + 4 * N + 2
           \<and> parse_iena_packet bytes N = Inr (Some p)
           \<and> pkt_key p = key \<and> pkt_sequence p = seq \<and> pkt_n_params p = N
           \<and> length (pkt_values p) = length values
           \<and> (\<forall>i < length values. is_nan (pkt_values p ! i) = is_nan (values ! i))
           \<and> ((\<forall>v \<in> set values. \<not> is_nan v) \<longrightarrow> list_all2 float32_eq (pkt_values p) values)"
proof -
  let ?b = "packet_bytes t key seq values"
  let ?p = "\<lparr>pkt_key = key, pkt_size = 9 + 2 * int (length values),
             pkt_time_us = t mod 2 ^ 32, pkt_status = 0, pkt_sequence = seq,
             pkt_n_params = int (length values), pkt_values = map quiet_nan values\<rparr>"
  have k: "in_u16 key" and s: "in_u16 seq"
    using assms by (simp_all add: in_u16_def)
  have len: "length values < 32764" using assms by linarith
  have N: "N = int (length values)" using assms by simp
  have b: "build_iena_packet t key seq values N = Inr ?b"
    unfolding N by (rule build_ok [OF k s len])
  have l: "int (length ?b) = 16 + 4 * N + 2"
    by (simp add: length_packet_bytes N)
  have p: "parse_iena_packet ?b N = Inr (Some ?p)"
    unfolding N by (rule parse_packet_bytes [OF k s len])
  have eq: "(\<forall>v \<in> set values. \<not> is_nan v) \<longrightarrow> list_all2 float32_eq (map quiet_nan values) values"
    by (auto simp: map_quiet_nan_id list_all2_same float32_eq_def)
  show ?thesis
    using b l p eq by (intro exI [of _ ?b] exI [of _ ?p]) (simp add: N)
qed

theorem roundtrip_encode_decode_witness:
  "\<exists>bytes p. build_iena_packet 5 0x0A01 7 [0x3F800000, 0xC0490FDB] 2 = Inr bytes
           \<and> parse_iena_packet bytes 2 = Inr (Some p)
           \<and> pkt_key p = 0x0A01 \<and> pkt_sequence p = 7
           \<and> list_all2 float32_eq (pkt_values p) [0x3F800000, 0xC0490FDB]"
proof -
  have n: "\<forall>v \<in> set [0x3F800000, 0xC0490FDB :: float32]. \<not> is_nan v"
    by (simp add: is_nan_def)
  show ?thesis
    using roundtrip_encode_decode [of 2 "0x0A01" 7 "[0x3F800000, 0xC0490FDB]" 5] n
    by auto
qed

text \<open>
  The claim as stated fails at a NaN: the quiet NaN \<open>0x7FC00000\<close> is encoded and
  decoded as itself, and it is not equal to itself under float equality.
\<close>

theorem roundtrip_nan_counterexample:
  "build_iena_packet 0 0x0A01 7 [0x7FC00000] 1
      = Inr [0x0A, 0x01, 0, 11, 0, 0, 0, 0, 0, 0, 0, 0, 0, 7, 0, 1, 0x7F, 0xC0, 0, 0, 0xDE, 0xAD]
   \<and> parse_iena_packet
        [0x0A, 0x01, 0, 11, 0, 0, 0, 0, 0, 0, 0, 0, 0, 7, 0, 1, 0x7F, 0xC0, 0, 0, 0xDE, 0xAD] 1
      = Inr (Some \<lparr>pkt_key = 0x0A01, pkt_size = 11, pkt_time_us = 0, pkt_status = 0,
                    pkt_sequence = 7, pkt_n_params = 1, pkt_values = [0x7FC00000]\<rparr>)
   \<and> \<not> float32_eq 0x7FC00000 0x7FC00000"
  by code_simp

section \<open>Verification of the receiver\<close>

lemma deque_append_maxlen [simp]: "maxlen (deque_append d x) = maxlen d"
  by (simp add: deque_append_def Let_def)

lemma deque_append_items:
  assumes "length (items d) \<le> maxlen d"
  shows "items (deque_append d x) = lastn (maxlen d) (items d @ [x])"
proof (cases "length (items d) = maxlen d")
  case True
  then have "Suc (length (items d)) - maxlen d = Suc 0" by simp
  then show ?thesis
    using True by (cases "items d") (auto simp: deque_append_def Let_def lastn_def drop_Suc)
next
  case False
  then show ?thesis
    using assms by (simp add: deque_append_def Let_def lastn_def)
qed

lemma deque_append_length:
  "length (items (deque_append d x))
     = (if length (items d) < maxlen d then Suc (length (items d)) else length (items d))"
  by (simp add: deque_append_def Let_def)

lemma deque_append_bounded:
  "length (items d) \<le> maxlen d \<Longrightarrow> length (items (deque_append d x)) \<le> maxlen d"
  by (simp add: deque_append_length)

lemma deque_extend_Nil [simp]: "deque_extend d [] = d"
  by (simp add: deque_extend_def)

lemma deque_extend_Cons [simp]: "deque_extend d (x # xs) = deque_extend (deque_append d x) xs"
  by (simp add: deque_extend_def)

lemma deque_extend_append: "deque_extend d (xs @ ys) = deque_extend (deque_extend d xs) ys"
  by (simp add: deque_extend_def)

lemma deque_extend_maxlen [simp]: "maxlen (deque_extend d xs) = maxlen d"
  by (induction xs arbitrary: d) simp_all

lemma lastn_lastn_append: "lastn m (lastn m xs @ ys) = lastn m (xs @ ys)"
proof (cases "length xs \<le> m")
  case True
  then show ?thesis by (simp add: lastn_def)
next
  case False
  then have "length xs + length ys - (length xs - m + m) + (length xs - m)
               = length xs + length ys - m"
    by simp
  then show ?thesis
    using False by (simp add: lastn_def)
qed

lemma deque_extend_items:
  "length (items d) \<le> maxlen d \<Longrightarrow> items (deque_extend d xs) = lastn (maxlen d) (items d @ xs)"
proof (induction xs arbitrary: d)
  case Nil
  then show ?case by (simp add: lastn_def)
next
  case (Cons x xs)
  have "items (deque_extend (deque_append d x) xs)
          = lastn (maxlen d) (items (deque_append d x) @ xs)"
    using Cons.IH [of "deque_append d x"] deque_append_bounded [OF Cons.prems] by simp
  also have "\<dots> = lastn (maxlen d) (lastn (maxlen d) (items d @ [x]) @ xs)"
    by (simp add: deque_append_items [OF Cons.prems])
  also have "\<dots> = lastn (maxlen d) (items d @ x # xs)"
    using lastn_lastn_append [of "maxlen d" "items d @ [x]" xs] by simp
  finally show ?case by simp
qed

lemma samples_for_Cons:
  "samples_for n (name # names) (v # vs)
     = (if name = n then v # samples_for n names vs else samples_for n names vs)"
  by (simp add: samples_for_def)

lemma append_values_enumerate:
  assumes "set names \<subseteq> dom ser" and "k + length names \<le> length vals"
  shows "append_values ser (enumerate k names) vals
           = Inr (\<lambda>n. map_option (\<lambda>d. deque_extend d (samples_for n names (drop k vals))) (ser n))"
  using assms
proof (induction names arbitrary: ser k)
  case Nil
  have "(\<lambda>n. map_option (\<lambda>d. d) (ser n)) = ser"
    by (rule ext) (simp add: option.map_ident)
  then show ?case by (simp add: samples_for_def)
next
  case (Cons name names)
  from Cons.prems obtain d where d: "ser name = Some d" by auto
  have k: "k < length vals" using Cons.prems by simp
  let ?ser = "ser(name \<mapsto> deque_append d (vals ! k))"
  have dr: "drop k vals = vals ! k # drop (Suc k) vals"
    using k by (simp add: Cons_nth_drop_Suc)
  have ih: "append_values ?ser (enumerate (Suc k) names) vals
              = Inr (\<lambda>n. map_option (\<lambda>d. deque_extend d (samples_for n names (drop (Suc k) vals))) (?ser n))"
    using Cons.prems by (intro Cons.IH) auto
  have "(\<lambda>n. map_option (\<lambda>d. deque_extend d (samples_for n names (drop (Suc k) vals))) (?ser n))
          = (\<lambda>n. map_option (\<lambda>d. deque_extend d (samples_for n (name # names) (drop k vals))) (ser n))"
    by (rule ext) (simp add: dr samples_for_Cons d)
  with ih show ?case
    using d k by simp
qed

lemma accepted_values_length:
  assumes "accepted r ev = Some pkt" and "0 \<le> num_params r"
  shows "int (length (pkt_values pkt)) = num_params r"
proof -
  from assms(1) obtain data ip port where ev: "ev = Datagram data ip port"
    by (cases ev) (simp_all add: accepted_def)
  from assms(1) ev have p: "parse_iena_packet data (num_params r) = Inr (Some pkt)"
    by (auto simp: accepted_def split: sum.splits option.splits if_splits)
  show ?thesis
  proof (cases "int (length data) < 16 + 4 * num_params r + 2")
    case True
    then show ?thesis using p by (simp add: parse_too_short)
  next
    case False
    then have "16 + 4 * num_params r + 2 \<le> int (length data)" by simp
    from parse_long_enough [OF assms(2) this] p show ?thesis
      using assms(2) by (auto split: if_splits)
  qed
qed

lemma listen_step_accepted:
  assumes acc: "accepted r ev = Some pkt"
    and np: "num_params r = int (length (param_names r))"
    and dom: "set (param_names r) \<subseteq> dom (series r)"
  shows "listen_step r ev now
           = Inr (r\<lparr>timestamps := deque_append (timestamps r) now,
                    series := (\<lambda>n. map_option
                                 (\<lambda>d. deque_extend d (samples_for n (param_names r) (pkt_values pkt)))
                                 (series r n)),
                    packet_count := packet_count r + 1\<rparr>)"
proof -
  from acc obtain data ip port where ev: "ev = Datagram data ip port"
    by (cases ev) (simp_all add: accepted_def)
  from acc ev have p: "parse_iena_packet data (num_params r) = Inr (Some pkt)"
    and key: "pkt_key pkt = key_filter r"
    by (auto simp: accepted_def split: sum.splits option.splits if_splits)
  have len: "length (pkt_values pkt) = length (param_names r)"
    using accepted_values_length [OF acc] np by simp
  have "append_values (series r) (enumerate 0 (param_names r)) (pkt_values pkt)
          = Inr (\<lambda>n. map_option
                       (\<lambda>d. deque_extend d (samples_for n (param_names r) (pkt_values pkt)))
                       (series r n))"
    using append_values_enumerate [OF dom, of 0 "pkt_values pkt"] len by simp
  then show ?thesis
    by (simp add: listen_step_def ev p key)
qed

lemma listen_step_not_accepted:
  assumes "accepted r ev = None" and "0 \<le> num_params r"
  shows "listen_step r ev now = Inr r"
proof (cases ev)
  case Timeout
  then show ?thesis by (simp add: listen_step_def)
next
  case (Datagram data ip port)
  have "\<forall>e. parse_iena_packet data (num_params r) \<noteq> Inl e"
  proof (cases "int (length data) < 16 + 4 * num_params r + 2")
    case True
    then show ?thesis by (simp add: parse_too_short)
  next
    case False
    then have "16 + 4 * num_params r + 2 \<le> int (length data)" by simp
    from parse_long_enough [OF assms(2) this] show ?thesis by simp
  qed
  then show ?thesis
    using assms(1) Datagram
    by (auto simp: listen_step_def accepted_def split: sum.splits option.splits if_splits)
qed

lemma accepted_cong:
  "num_params r' = num_params r \<Longrightarrow> key_filter r' = key_filter r \<Longrightarrow> accepted r' ev = accepted r ev"
  by (cases ev) (auto simp: accepted_def split: sum.splits option.splits)

lemma listen_all_accepted:
  assumes "running r"
    and "num_params r = int (length (param_names r))"
    and "set (param_names r) \<subseteq> dom (series r)"
    and "\<forall>ev \<in> set evs. accepted r (fst ev) \<noteq> None"
  shows "listen r evs
           = Inr (r\<lparr>timestamps := deque_extend (timestamps r) (map snd evs),
                    series := (\<lambda>n. map_option
                       (\<lambda>d. deque_extend d
                          (concat (map (\<lambda>ev. samples_for n (param_names r)
                                                (pkt_values (the (accepted r (fst ev))))) evs)))
                       (series r n)),
                    packet_count := packet_count r + int (length evs)\<rparr>)"
  using assms
proof (induction evs arbitrary: r)
  case Nil
  then show ?case by (simp add: option.map_ident)
next
  case (Cons ev evs)
  obtain e now where ev: "ev = (e, now)" by (cases ev)
  from Cons.prems(4) ev obtain pkt where acc: "accepted r e = Some pkt" by auto
  let ?r1 = "r\<lparr>timestamps := deque_append (timestamps r) now,
                 series := (\<lambda>n. map_option
                    (\<lambda>d. deque_extend d (samples_for n (param_names r) (pkt_values pkt)))
                    (series r n)),
                 packet_count := packet_count r + 1\<rparr>"
  have step: "listen_step r e now = Inr ?r1"
    by (rule listen_step_accepted [OF acc Cons.prems(2) Cons.prems(3)])
  have same: "\<And>x. accepted ?r1 x = accepted r x"
    by (rule accepted_cong) simp_all
  have dom1: "set (param_names ?r1) \<subseteq> dom (series ?r1)"
    using Cons.prems(3) by (auto simp: dom_def)
  have ih: "listen ?r1 evs
              = Inr (?r1\<lparr>timestamps := deque_extend (timestamps ?r1) (map snd evs),
                    series := (\<lambda>n. map_option
                       (\<lambda>d. deque_extend d
                          (concat (map (\<lambda>ev. samples_for n (param_names ?r1)
                                                (pkt_values (the (accepted ?r1 (fst ev))))) evs)))
                       (series ?r1 n)),
                    packet_count := packet_count ?r1 + int (length evs)\<rparr>)"
    using Cons.prems dom1 by (intro Cons.IH) (simp_all add: same)
  have ser: "(\<lambda>n. map_option
                (\<lambda>d. deque_extend d
                   (concat (map (\<lambda>ev. samples_for n (param_names r)
                                         (pkt_values (the (accepted r (fst ev))))) evs)))
                (map_option
                   (\<lambda>d. deque_extend d (samples_for n (param_names r) (pkt_values pkt)))
                   (series r n)))
           = (\<lambda>n. map_option
                (\<lambda>d. deque_extend d
                   (samples_for n (param_names r) (pkt_values pkt)
                      @ concat (map (\<lambda>ev. samples_for n (param_names r)
                                         (pkt_values (the (accepted r (fst ev))))) evs)))
                (series r n))"
    by (rule ext) (simp add: option.map_comp comp_def deque_extend_append)
  show ?case
    using Cons.prems(1) by (simp add: ev step ih same acc ser)
qed

lemma accepted_packet_bytes:
  assumes "in_u16 key" "in_u16 seq" "length vs < 32764"
    and "num_params r = int (length vs)" "key_filter r = key"
  shows "accepted r (Datagram (packet_bytes t key seq vs) ip port)
           = Some \<lparr>pkt_key = key, pkt_size = 9 + 2 * int (length vs),
                         pkt_time_us = t mod 2 ^ 32, pkt_status = 0, pkt_sequence = seq,
                         pkt_n_params = int (length vs), pkt_values = map quiet_nan vs\<rparr>"
  using parse_packet_bytes [OF assms(1-3), of t] assms(4,5) by (simp add: accepted_def)

lemma not_accepted_other_key:
  assumes "in_u16 key" "in_u16 seq" "length vs < 32764"
    and "num_params r = int (length vs)" "key_filter r \<noteq> key"
  shows "accepted r (Datagram (packet_bytes t key seq vs) ip port) = None"
  using parse_packet_bytes [OF assms(1-3), of t] assms(4,5) by (simp add: accepted_def)

lemma samples_for_absent: "n \<notin> set names \<Longrightarrow> samples_for n names vals = []"
  by (auto simp: samples_for_def filter_empty_conv dest: set_zip_leftD)

lemma samples_for_distinct:
  "distinct names \<Longrightarrow> i < length names \<Longrightarrow> length names \<le> length vals
     \<Longrightarrow> samples_for (names ! i) names vals = [vals ! i]"
proof (induction names arbitrary: vals i)
  case Nil
  then show ?case by simp
next
  case (Cons x xs)
  from Cons.prems obtain v vs where vals: "vals = v # vs" by (cases vals) auto
  show ?case
  proof (cases i)
    case 0
    then show ?thesis
      using Cons.prems by (simp add: vals samples_for_Cons samples_for_absent)
  next
    case (Suc j)
    then have "xs ! j \<in> set xs" using Cons.prems by simp
    then have "x \<noteq> xs ! j" using Cons.prems by auto
    then show ?thesis
      using Cons.prems Suc Cons.IH [of j vs] by (simp add: vals samples_for_Cons)
  qed
qed

text \<open>
  Claim C4. Initially every buffer is empty with capacity 10000. From any state whose
  buffers are within their capacity, after any sequence of matching datagrams the
  timestamps buffer holds exactly the capacity most recent of its entries (the old
  ones followed by the arrival times) in insertion order, and so does the buffer of
  every name, for all names at once; the buffers do not depend on the display
  window.
\<close>

theorem capacity_eviction:
  "(running (init_receiver k w names)
      \<and> num_params (init_receiver k w names) = int (length (param_names (init_receiver k w names)))
      \<and> set (param_names (init_receiver k w names)) \<subseteq> dom (series (init_receiver k w names))
      \<and> timestamps (init_receiver k w names) = \<lparr>maxlen = 10000, items = []\<rparr>
      \<and> (\<forall>n d. series (init_receiver k w names) n = Some d \<longrightarrow> d = \<lparr>maxlen = 10000, items = []\<rparr>))
   \<and> (running r \<and> num_params r = int (length (param_names r))
        \<and> set (param_names r) \<subseteq> dom (series r)
        \<and> length (items (timestamps r)) \<le> maxlen (timestamps r)
        \<and> (\<forall>n d. series r n = Some d \<longrightarrow> length (items d) \<le> maxlen d)
        \<and> (\<forall>ev \<in> set evs. accepted r (fst ev) \<noteq> None)
      \<longrightarrow> (\<exists>r'. listen r evs = Inr r'
             \<and> maxlen (timestamps r') = maxlen (timestamps r)
             \<and> items (timestamps r')
                 = lastn (maxlen (timestamps r)) (items (timestamps r) @ map snd evs)
             \<and> (\<forall>n d. series r n = Some d \<longrightarrow>
                   (\<exists>d'. series r' n = Some d' \<and> maxlen d' = maxlen d
                      \<and> items d' = lastn (maxlen d)
                           (items d @ concat (map (\<lambda>ev. samples_for n (param_names r)
                                (pkt_values (the (accepted r (fst ev))))) evs))))
             \<and> (\<forall>w'. \<exists>r''. listen (r\<lparr>window := w'\<rparr>) evs = Inr r''
                   \<and> timestamps r'' = timestamps r' \<and> series r'' = series r')))"
proof (intro conjI impI)
  show "set (param_names (init_receiver k w names)) \<subseteq> dom (series (init_receiver k w names))"
    by (auto simp: init_receiver_def Let_def dom_map_of_conv_image_fst image_image)
  show "\<forall>n d. series (init_receiver k w names) n = Some d \<longrightarrow> d = \<lparr>maxlen = 10000, items = []\<rparr>"
    by (auto simp: init_receiver_def Let_def deque_new_def dest!: map_of_SomeD)
next
  assume h: "running r \<and> num_params r = int (length (param_names r))
        \<and> set (param_names r) \<subseteq> dom (series r)
        \<and> length (items (timestamps r)) \<le> maxlen (timestamps r)
        \<and> (\<forall>n d. series r n = Some d \<longrightarrow> length (items d) \<le> maxlen d)
        \<and> (\<forall>ev \<in> set evs. accepted r (fst ev) \<noteq> None)"
  let ?r' = "r\<lparr>timestamps := deque_extend (timestamps r) (map snd evs),
                 series := (\<lambda>n. map_option
                    (\<lambda>d. deque_extend d
                       (concat (map (\<lambda>ev. samples_for n (param_names r)
                                             (pkt_values (the (accepted r (fst ev))))) evs)))
                    (series r n)),
                 packet_count := packet_count r + int (length evs)\<rparr>"
  have l: "listen r evs = Inr ?r'"
    using h by (intro listen_all_accepted) simp_all
  have same: "\<And>w' x. accepted (r\<lparr>window := w'\<rparr>) x = accepted r x"
    by (rule accepted_cong) simp_all
  have lw: "\<And>w'. listen (r\<lparr>window := w'\<rparr>) evs = Inr (?r'\<lparr>window := w'\<rparr>)"
  proof -
    fix w'
    have "listen (r\<lparr>window := w'\<rparr>) evs
            = Inr (r\<lparr>window := w'\<rparr>
                 \<lparr>timestamps := deque_extend (timestamps (r\<lparr>window := w'\<rparr>)) (map snd evs),
                  series := (\<lambda>n. map_option
                    (\<lambda>d. deque_extend d
                       (concat (map (\<lambda>ev. samples_for n (param_names (r\<lparr>window := w'\<rparr>))
                                (pkt_values (the (accepted (r\<lparr>window := w'\<rparr>) (fst ev))))) evs)))
                    (series (r\<lparr>window := w'\<rparr>) n)),
                  packet_count := packet_count (r\<lparr>window := w'\<rparr>) + int (length evs)\<rparr>)"
      using h by (intro listen_all_accepted) (simp_all add: same)
    then show "listen (r\<lparr>window := w'\<rparr>) evs = Inr (?r'\<lparr>window := w'\<rparr>)"
      by (simp add: same)
  qed
  show "\<exists>r'. listen r evs = Inr r'
             \<and> maxlen (timestamps r') = maxlen (timestamps r)
             \<and> items (timestamps r')
                 = lastn (maxlen (timestamps r)) (items (timestamps r) @ map snd evs)
             \<and> (\<forall>n d. series r n = Some d \<longrightarrow>
                   (\<exists>d'. series r' n = Some d' \<and> maxlen d' = maxlen d
                      \<and> items d' = lastn (maxlen d)
                           (items d @ concat (map (\<lambda>ev. samples_for n (param_names r)
                                (pkt_values (the (accepted r (fst ev))))) evs))))
             \<and> (\<forall>w'. \<exists>r''. listen (r\<lparr>window := w'\<rparr>) evs = Inr r''
                   \<and> timestamps r'' = timestamps r' \<and> series r'' = series r')"
    using h by (intro exI [of _ ?r']) (simp add: l lw deque_extend_items)
qed (simp_all add: init_receiver_def Let_def deque_new_def)

theorem capacity_eviction_witness:
  "\<exists>r'. listen \<lparr>key_filter = 0x0A01, window = 30::int, param_names = [''a'', ''b''],
                   num_params = 2, timestamps = \<lparr>maxlen = 2, items = []\<rparr>,
                   series = [''a'' \<mapsto> \<lparr>maxlen = 2, items = []\<rparr>, ''b'' \<mapsto> \<lparr>maxlen = 2, items = []\<rparr>],
                   packet_count = 0, running = True\<rparr>
              [(Datagram (packet_bytes 0 0x0A01 1 [11, 21]) ''10.0.0.1'' 5001, 100),
               (Datagram (packet_bytes 0 0x0A01 2 [12, 22]) ''10.0.0.1'' 5001, 101),
               (Datagram (packet_bytes 0 0x0A01 3 [13, 23]) ''10.0.0.1'' 5001, 102)] = Inr r'
        \<and> items (timestamps r') = [101, 102]
        \<and> series r' ''a'' = Some \<lparr>maxlen = 2, items = [12, 13]\<rparr>
        \<and> series r' ''b'' = Some \<lparr>maxlen = 2, items = [22, 23]\<rparr>"
proof -
  let ?r = "\<lparr>key_filter = 0x0A01, window = 30::int, param_names = [''a'', ''b''],
                   num_params = 2, timestamps = \<lparr>maxlen = 2, items = []\<rparr>,
                   series = [''a'' \<mapsto> \<lparr>maxlen = 2, items = []\<rparr>, ''b'' \<mapsto> \<lparr>maxlen = 2, items = []\<rparr>],
                   packet_count = 0, running = True\<rparr>"
  let ?evs = "[(Datagram (packet_bytes 0 0x0A01 1 [11, 21]) ''10.0.0.1'' 5001, 100::int),
               (Datagram (packet_bytes 0 0x0A01 2 [12, 22]) ''10.0.0.1'' 5001, 101),
               (Datagram (packet_bytes 0 0x0A01 3 [13, 23]) ''10.0.0.1'' 5001, 102)]"
  have a: "\<And>s vs ip port. in_u16 s \<Longrightarrow> length vs = 2 \<Longrightarrow>
             accepted ?r (Datagram (packet_bytes 0 0x0A01 s vs) ip port)
               = Some \<lparr>pkt_key = 0x0A01, pkt_size = 13, pkt_time_us = 0, pkt_status = 0,
                        pkt_sequence = s, pkt_n_params = 2, pkt_values = map quiet_nan vs\<rparr>"
    using accepted_packet_bytes [of "0x0A01" _ _ ?r 0] by (simp add: in_u16_def)
  have h: "running ?r \<and> num_params ?r = int (length (param_names ?r))
        \<and> set (param_names ?r) \<subseteq> dom (series ?r)
        \<and> length (items (timestamps ?r)) \<le> maxlen (timestamps ?r)
        \<and> (\<forall>n d. series ?r n = Some d \<longrightarrow> length (items d) \<le> maxlen d)
        \<and> (\<forall>ev \<in> set ?evs. accepted ?r (fst ev) \<noteq> None)"
    by (simp add: a in_u16_def)
  from capacity_eviction [THEN conjunct2, rule_format, OF h]
  obtain r' where l: "listen ?r ?evs = Inr r'"
    and ts: "items (timestamps r')
               = lastn (maxlen (timestamps ?r)) (items (timestamps ?r) @ map snd ?evs)"
    and ser: "\<And>n d. series ?r n = Some d \<Longrightarrow>
               \<exists>d'. series r' n = Some d' \<and> maxlen d' = maxlen d
                  \<and> items d' = lastn (maxlen d)
                       (items d @ concat (map (\<lambda>ev. samples_for n (param_names ?r)
                            (pkt_values (the (accepted ?r (fst ev))))) ?evs))"
    by blast
  have t: "items (timestamps r') = [101, 102]"
    using ts by (simp add: lastn_def)
  have sa: "series r' ''a'' = Some \<lparr>maxlen = 2, items = [12, 13]\<rparr>"
    using ser [of "''a''" "\<lparr>maxlen = 2, items = []\<rparr>"]
    by (auto simp: a in_u16_def lastn_def samples_for_def quiet_nan_def is_nan_def)
  have sb: "series r' ''b'' = Some \<lparr>maxlen = 2, items = [22, 23]\<rparr>"
    using ser [of "''b''" "\<lparr>maxlen = 2, items = []\<rparr>"]
    by (auto simp: a in_u16_def lastn_def samples_for_def quiet_nan_def is_nan_def)
  show ?thesis
    using l t sa sb by blast
qed

text \<open>
  Claim C6. A datagram that is malformed or carries another key leaves the receiver
  state unchanged (no sample appended, packet count not incremented), and so does
  any sequence of such datagrams and timeouts. A matching datagram increments the
  packet count by exactly 1, appends the arrival time to the timestamps and appends
  to the buffer of each name the values at the positions where the name is
  configured: one sample per configured parameter.
\<close>

theorem key_filtering:
  "(parse_iena_packet data (num_params r) = Inr None
      \<or> (\<exists>p. parse_iena_packet data (num_params r) = Inr (Some p) \<and> pkt_key p \<noteq> key_filter r)
      \<longrightarrow> listen_step r (Datagram data ip port) now = Inr r)
   \<and> (0 \<le> num_params r \<and> (\<forall>ev \<in> set evs. accepted r (fst ev) = None)
      \<longrightarrow> listen r evs = Inr r)
   \<and> (accepted r ev = Some pkt \<and> num_params r = int (length (param_names r))
        \<and> set (param_names r) \<subseteq> dom (series r)
      \<longrightarrow> (\<exists>r'. listen_step r ev now = Inr r'
             \<and> packet_count r' = packet_count r + 1
             \<and> timestamps r' = deque_append (timestamps r) now
             \<and> (\<forall>n. series r' n
                   = map_option (\<lambda>d. deque_extend d (samples_for n (param_names r) (pkt_values pkt)))
                       (series r n))
             \<and> (distinct (param_names r) \<longrightarrow>
                  (\<forall>i < length (param_names r).
                     series r' (param_names r ! i)
                       = map_option (\<lambda>d. deque_append d (pkt_values pkt ! i))
                           (series r (param_names r ! i))))))"
proof (intro conjI impI)
  assume "parse_iena_packet data (num_params r) = Inr None
      \<or> (\<exists>p. parse_iena_packet data (num_params r) = Inr (Some p) \<and> pkt_key p \<noteq> key_filter r)"
  then show "listen_step r (Datagram data ip port) now = Inr r"
    by (auto simp: listen_step_def)
next
  assume "0 \<le> num_params r \<and> (\<forall>ev \<in> set evs. accepted r (fst ev) = None)"
  then show "listen r evs = Inr r"
  proof (induction evs)
    case Nil
    then show ?case by simp
  next
    case (Cons ev evs)
    obtain e t where ev: "ev = (e, t)" by (cases ev)
    have "listen_step r e t = Inr r"
      using Cons.prems ev by (intro listen_step_not_accepted) simp_all
    then show ?case
      using Cons ev by simp
  qed
next
  assume h: "accepted r ev = Some pkt \<and> num_params r = int (length (param_names r))
        \<and> set (param_names r) \<subseteq> dom (series r)"
  let ?r' = "r\<lparr>timestamps := deque_append (timestamps r) now,
                    series := (\<lambda>n. map_option
                                 (\<lambda>d. deque_extend d (samples_for n (param_names r) (pkt_values pkt)))
                                 (series r n)),
                    packet_count := packet_count r + 1\<rparr>"
  have step: "listen_step r ev now = Inr ?r'"
    using h by (intro listen_step_accepted) simp_all
  have len: "length (pkt_values pkt) = length (param_names r)"
    using accepted_values_length [of r ev pkt] h by simp
  have one: "distinct (param_names r) \<longrightarrow>
       (\<forall>i < length (param_names r).
          samples_for (param_names r ! i) (param_names r) (pkt_values pkt) = [pkt_values pkt ! i])"
    using len by (simp add: samples_for_distinct)
  show "\<exists>r'. listen_step r ev now = Inr r'
             \<and> packet_count r' = packet_count r + 1
             \<and> timestamps r' = deque_append (timestamps r) now
             \<and> (\<forall>n. series r' n
                   = map_option (\<lambda>d. deque_extend d (samples_for n (param_names r) (pkt_values pkt)))
                       (series r n))
             \<and> (distinct (param_names r) \<longrightarrow>
                  (\<forall>i < length (param_names r).
                     series r' (param_names r ! i)
                       = map_option (\<lambda>d. deque_append d (pkt_values pkt ! i))
                           (series r (param_names r ! i))))"
    using one by (intro exI [of _ ?r']) (simp add: step)
qed

theorem key_filtering_witness:
  "listen (init_receiver 0x0A01 (30::int) [''a''])
      [(Datagram (packet_bytes 0 0x0B02 1 [11]) ''10.0.0.2'' 5001, 100), (Timeout, 101),
       (Datagram (packet_bytes 0 0x0B02 2 [12]) ''10.0.0.2'' 5001, 102)]
     = Inr (init_receiver 0x0A01 30 [''a''])
   \<and> packet_count (init_receiver 0x0A01 (30::int) [''a'']) = 0
   \<and> items (timestamps (init_receiver 0x0A01 (30::int) [''a''])) = []
   \<and> listen_step (init_receiver 0x0A01 (30::int) [''a''])
        (Datagram (packet_bytes 0 0x0B02 1 [11]) ''10.0.0.2'' 5001) 100
     = Inr (init_receiver 0x0A01 30 [''a''])
   \<and> (\<exists>r'. listen_step (init_receiver 0x0A01 (30::int) [''a''])
              (Datagram (packet_bytes 0 0x0A01 1 [11]) ''10.0.0.1'' 5001) 100 = Inr r'
          \<and> packet_count r' = 1 \<and> items (timestamps r') = [100]
          \<and> series r' ''a'' = Some \<lparr>maxlen = 10000, items = [11]\<rparr>)"
proof -
  let ?r = "init_receiver 0x0A01 (30::int) [''a'']"
  let ?evs = "[(Datagram (packet_bytes 0 0x0B02 1 [11]) ''10.0.0.2'' 5001, 100::int), (Timeout, 101),
       (Datagram (packet_bytes 0 0x0B02 2 [12]) ''10.0.0.2'' 5001, 102)]"
  let ?pkt = "\<lparr>pkt_key = 0x0A01, pkt_size = 11, pkt_time_us = 0, pkt_status = 0,
                pkt_sequence = 1, pkt_n_params = 1, pkt_values = [11]\<rparr>"
  have np: "num_params ?r = 1" and kf: "key_filter ?r = 0x0A01"
    and pn: "param_names ?r = [''a'']"
    and sa: "series ?r ''a'' = Some \<lparr>maxlen = 10000, items = []\<rparr>"
    and ts: "timestamps ?r = \<lparr>maxlen = 10000, items = []\<rparr>"
    and pc: "packet_count ?r = 0"
    by (simp_all add: init_receiver_def Let_def deque_new_def)
  have other: "\<And>s v. in_u16 s \<Longrightarrow>
      parse_iena_packet (packet_bytes 0 0x0B02 s [v]) (num_params ?r)
        = Inr (Some \<lparr>pkt_key = 0x0B02, pkt_size = 11, pkt_time_us = 0, pkt_status = 0,
                pkt_sequence = s, pkt_n_params = 1, pkt_values = [quiet_nan v]\<rparr>)"
    using parse_packet_bytes [of "0x0B02" _ "[_]" 0] by (simp add: np in_u16_def)
  have rej: "\<And>s v ip port. in_u16 s \<Longrightarrow>
      accepted ?r (Datagram (packet_bytes 0 0x0B02 s [v]) ip port) = None"
    by (simp add: accepted_def other kf)
  have h1: "parse_iena_packet (packet_bytes 0 0x0B02 1 [11]) (num_params ?r) = Inr None
      \<or> (\<exists>p. parse_iena_packet (packet_bytes 0 0x0B02 1 [11]) (num_params ?r) = Inr (Some p)
              \<and> pkt_key p \<noteq> key_filter ?r)"
    by (simp add: other in_u16_def kf)
  have h2: "0 \<le> num_params ?r \<and> (\<forall>ev \<in> set ?evs. accepted ?r (fst ev) = None)"
    by (simp add: np rej in_u16_def) (simp add: accepted_def)
  have acc: "accepted ?r (Datagram (packet_bytes 0 0x0A01 1 [11]) ''10.0.0.1'' 5001) = Some ?pkt"
    using accepted_packet_bytes [of "0x0A01" 1 "[11]" ?r 0] by (simp add: np kf in_u16_def quiet_nan_def is_nan_def)
  have h3: "accepted ?r (Datagram (packet_bytes 0 0x0A01 1 [11]) ''10.0.0.1'' 5001) = Some ?pkt
        \<and> num_params ?r = int (length (param_names ?r))
        \<and> set (param_names ?r) \<subseteq> dom (series ?r)"
    using acc sa by (simp add: np pn dom_def)
  have a: "listen_step ?r (Datagram (packet_bytes 0 0x0B02 1 [11]) ''10.0.0.2'' 5001) 100 = Inr ?r"
    using key_filtering [THEN conjunct1, rule_format, OF h1] .
  have b: "listen ?r ?evs = Inr ?r"
    using key_filtering [THEN conjunct2, THEN conjunct1, rule_format, OF h2] .
  from key_filtering [THEN conjunct2, THEN conjunct2, rule_format, OF h3, of 100]
  obtain r' where s: "listen_step ?r (Datagram (packet_bytes 0 0x0A01 1 [11]) ''10.0.0.1'' 5001) 100 = Inr r'"
    and c: "packet_count r' = packet_count ?r + 1"
    and t: "timestamps r' = deque_append (timestamps ?r) 100"
    and v: "\<And>n. series r' n
              = map_option (\<lambda>d. deque_extend d (samples_for n (param_names ?r) (pkt_values ?pkt)))
                  (series ?r n)"
    by blast
  have c': "packet_count r' = 1" using c pc by simp
  have t': "items (timestamps r') = [100]"
    using t by (simp add: ts deque_append_def)
  have v': "series r' ''a'' = Some \<lparr>maxlen = 10000, items = [11]\<rparr>"
    using v [of "''a''"] by (simp add: sa pn samples_for_def deque_append_def)
  show ?thesis
    using a b pc ts s c' t' v' by auto
qed

section \<open>Verification of the snapshot and of the buffer invariant\<close>

lemma bool_index_nth:
  "length xs = length ms \<Longrightarrow>
     map fst (filter snd (zip xs ms)) = map ((!) xs) (filter ((!) ms) [0..<length xs])"
proof (induction xs ms rule: list_induct2)
  case Nil
  then show ?case by simp
next
  case (Cons x xs m ms)
  have "[0..<length (x # xs)] = 0 # map Suc [0..<length xs]"
    by (simp add: upt_conv_Cons map_Suc_upt del: upt_Suc)
  then show ?case
    using Cons by (simp add: filter_map comp_def del: upt_Suc)
qed

lemma bool_index_map:
  "bool_index xs (map p ts) =
     (if length xs \<noteq> length ts then Inl IndexError
      else Inr (map ((!) xs) (filter (\<lambda>i. p (ts ! i)) [0..<length ts])))"
proof (cases "length xs = length ts")
  case True
  have "filter ((!) (map p ts)) [0..<length ts] = filter (\<lambda>i. p (ts ! i)) [0..<length ts]"
    by (rule filter_cong) simp_all
  then show ?thesis
    using True bool_index_nth [of xs "map p ts"] by (simp add: bool_index_def)
next
  case False
  then show ?thesis by (simp add: bool_index_def)
qed

lemma collect_series_ok:
  assumes "\<forall>n \<in> set vs. \<exists>d. ser n = Some d \<and> length (items d) = length msk"
  shows "collect_series ser msk vs acc
           = Inr (\<lambda>n. if n \<in> set vs
                       then Some (map fst (filter snd (zip (items (the (ser n))) msk)))
                       else acc n)"
  using assms
proof (induction vs arbitrary: acc)
  case Nil
  then show ?case by simp
next
  case (Cons name vs)
  from Cons.prems obtain d where d: "ser name = Some d" "length (items d) = length msk"
    by auto
  have "collect_series ser msk vs (acc(name \<mapsto> map fst (filter snd (zip (items d) msk))))
          = Inr (\<lambda>n. if n \<in> set vs
                       then Some (map fst (filter snd (zip (items (the (ser n))) msk)))
                       else (acc(name \<mapsto> map fst (filter snd (zip (items d) msk)))) n)"
    using Cons.prems by (intro Cons.IH) simp
  moreover have "(\<lambda>n. if n \<in> set vs
                       then Some (map fst (filter snd (zip (items (the (ser n))) msk)))
                       else (acc(name \<mapsto> map fst (filter snd (zip (items d) msk)))) n)
               = (\<lambda>n. if n \<in> set (name # vs)
                       then Some (map fst (filter snd (zip (items (the (ser n))) msk)))
                       else acc n)"
    by (rule ext) (simp add: d)
  ultimately show ?case
    by (simp add: d bool_index_def)
qed

lemma collect_series_missing:
  "name \<in> set vs \<Longrightarrow> ser name = None \<Longrightarrow> \<exists>e. collect_series ser msk vs acc = Inl e"
  by (induction vs arbitrary: acc) (auto split: option.splits sum.splits)

lemma collect_series_KeyError:
  "name \<in> set vs \<Longrightarrow> ser name = None
     \<Longrightarrow> \<forall>n \<in> set vs. \<forall>d. ser n = Some d \<longrightarrow> length (items d) = length msk
     \<Longrightarrow> collect_series ser msk vs acc = Inl KeyError"
  by (induction vs arbitrary: acc) (auto simp: bool_index_def split: option.splits sum.splits)

lemma map_of_empty_lists: "n \<in> set vs \<Longrightarrow> map_of (map (\<lambda>n. (n, [])) vs) n = Some []"
  by (induction vs) auto

lemma get_data_nonempty:
  assumes "items (timestamps r) \<noteq> []"
  shows "get_data r vs =
     (case collect_series (series r)
             (map (\<lambda>t. t \<ge> last (items (timestamps r)) - window r) (items (timestamps r)))
             vs Map.empty of
        Inl e \<Rightarrow> Inl e
      | Inr result \<Rightarrow>
          Inr (map (\<lambda>i. items (timestamps r) ! i - last (items (timestamps r))) (window_indices r),
               result))"
  using assms
  by (simp add: get_data_def Let_def bool_index_map window_indices_def comp_def split: sum.splits)

text \<open>
  Claim C3, amended. With a non-empty buffer and requested names each of whose
  buffers has as many entries as the timestamps buffer (as every configured name has
  in every reachable state when the configured names are pairwise distinct), the
  snapshot returns, for the index set \<open>I\<close> of the positions whose timestamp is at
  least the last timestamp minus the window, the timestamps at \<open>I\<close> minus the last
  timestamp and, for each requested name, exactly the values of its buffer at \<open>I\<close>.
  With no samples it returns empty sequences for every requested name and does not
  fail.
\<close>

theorem windowed_snapshot:
  "(items (timestamps r) = []
      \<longrightarrow> (\<exists>res. get_data r vs = Inr ([], res) \<and> (\<forall>n \<in> set vs. res n = Some [])))
   \<and> (items (timestamps r) \<noteq> []
        \<and> (\<forall>n \<in> set vs. \<exists>d. series r n = Some d
               \<and> length (items d) = length (items (timestamps r)))
      \<longrightarrow> (\<exists>res. get_data r vs
                  = Inr (map (\<lambda>i. items (timestamps r) ! i - last (items (timestamps r)))
                           (window_indices r), res)
             \<and> (\<forall>n \<in> set vs.
                   res n = Some (map (\<lambda>i. items (the (series r n)) ! i) (window_indices r)))))"
proof (intro conjI impI)
  assume "items (timestamps r) = []"
  then show "\<exists>res. get_data r vs = Inr ([], res) \<and> (\<forall>n \<in> set vs. res n = Some [])"
    by (simp add: get_data_def map_of_empty_lists)
next
  assume h: "items (timestamps r) \<noteq> []
        \<and> (\<forall>n \<in> set vs. \<exists>d. series r n = Some d
               \<and> length (items d) = length (items (timestamps r)))"
  let ?ts = "items (timestamps r)"
  let ?p = "\<lambda>t. t \<ge> last ?ts - window r"
  let ?res = "\<lambda>n. if n \<in> set vs
                   then Some (map fst (filter snd (zip (items (the (series r n))) (map ?p ?ts))))
                   else None"
  have c: "collect_series (series r) (map ?p ?ts) vs Map.empty = Inr ?res"
    using h by (intro collect_series_ok) simp
  have g: "get_data r vs
             = Inr (map (\<lambda>i. ?ts ! i - last ?ts) (window_indices r), ?res)"
    using h by (simp add: get_data_nonempty c)
  have v: "\<forall>n \<in> set vs.
             ?res n = Some (map (\<lambda>i. items (the (series r n)) ! i) (window_indices r))"
  proof
    fix n
    assume n: "n \<in> set vs"
    with h obtain d where d: "series r n = Some d" "length (items d) = length ?ts"
      by auto
    have "bool_index (items d) (map ?p ?ts)
            = Inr (map ((!) (items d)) (filter (\<lambda>i. ?p (?ts ! i)) [0..<length ?ts]))"
      using d by (simp add: bool_index_map)
    then show "?res n = Some (map (\<lambda>i. items (the (series r n)) ! i) (window_indices r))"
      using n d by (simp add: bool_index_def window_indices_def Let_def)
  qed
  show "\<exists>res. get_data r vs
                  = Inr (map (\<lambda>i. ?ts ! i - last ?ts) (window_indices r), res)
             \<and> (\<forall>n \<in> set vs.
                   res n = Some (map (\<lambda>i. items (the (series r n)) ! i) (window_indices r)))"
    using g v by blast
qed

theorem windowed_snapshot_witness:
  "(\<exists>res. get_data (init_receiver 0x0A01 (3::int) [''a'', ''b'']) [''b'', ''a''] = Inr ([], res)
         \<and> res ''a'' = Some [] \<and> res ''b'' = Some [])
   \<and> (\<exists>res. get_data
          \<lparr>key_filter = 0x0A01, window = 3::int, param_names = [''a'', ''b''], num_params = 2,
           timestamps = \<lparr>maxlen = 10000, items = [0, 1, 2, 3, 4, 5, 6, 7, 8, 9]\<rparr>,
           series = [''a'' \<mapsto> \<lparr>maxlen = 10000, items = [10, 11, 12, 13, 14, 15, 16, 17, 18, 19]\<rparr>,
                     ''b'' \<mapsto> \<lparr>maxlen = 10000, items = [20, 21, 22, 23, 24, 25, 26, 27, 28, 29]\<rparr>],
           packet_count = 10, running = True\<rparr> [''b'', ''a'']
        = Inr ([-3, -2, -1, 0], res)
         \<and> res ''a'' = Some [16, 17, 18, 19] \<and> res ''b'' = Some [26, 27, 28, 29])"
proof -
  let ?ini = "init_receiver 0x0A01 (3::int) [''a'', ''b'']"
  let ?r = "\<lparr>key_filter = 0x0A01, window = 3::int, param_names = [''a'', ''b''], num_params = 2,
           timestamps = \<lparr>maxlen = 10000, items = [0, 1, 2, 3, 4, 5, 6, 7, 8, 9]\<rparr>,
           series = [''a'' \<mapsto> \<lparr>maxlen = 10000, items = [10, 11, 12, 13, 14, 15, 16, 17, 18, 19]\<rparr>,
                     ''b'' \<mapsto> \<lparr>maxlen = 10000, items = [20, 21, 22, 23, 24, 25, 26, 27, 28, 29]\<rparr>],
           packet_count = 10, running = True\<rparr>"
  have e: "items (timestamps ?ini) = []"
    by (simp add: init_receiver_def Let_def deque_new_def)
  have h: "items (timestamps ?r) \<noteq> []
        \<and> (\<forall>n \<in> set [''b'', ''a'']. \<exists>d. series ?r n = Some d
               \<and> length (items d) = length (items (timestamps ?r)))"
    by simp
  have w: "window_indices ?r = [6, 7, 8, 9]"
    by code_simp
  from windowed_snapshot [THEN conjunct1, rule_format, OF e, of "[''b'', ''a'']"]
  have a: "\<exists>res. get_data ?ini [''b'', ''a''] = Inr ([], res)
         \<and> res ''a'' = Some [] \<and> res ''b'' = Some []"
    by auto
  from windowed_snapshot [THEN conjunct2, rule_format, OF h]
  have b: "\<exists>res. get_data ?r [''b'', ''a''] = Inr ([-3, -2, -1, 0], res)
         \<and> res ''a'' = Some [16, 17, 18, 19] \<and> res ''b'' = Some [26, 27, 28, 29]"
    by (auto simp: w)
  show ?thesis
    using a b by blast
qed

text \<open>
  Claim C10, amended. For a requested name that is not configured (the series
  dictionary has exactly the configured names as keys), the snapshot returns an
  empty sequence for that name when no sample has been stored, and raises once a
  sample has been stored: a \<^verbatim>\<open>KeyError\<close> provided every requested configured name's
  buffer has as many entries as the timestamps buffer (as in every reachable state
  when the configured names are pairwise distinct); otherwise the exception may be
  the \<^verbatim>\<open>IndexError\<close> of a name requested before it.
\<close>

theorem snapshot_unconfigured_name:
  assumes "name \<in> set vs" and "name \<notin> set (param_names r)"
    and "dom (series r) = set (param_names r)"
  shows "(items (timestamps r) = []
            \<longrightarrow> (\<exists>res. get_data r vs = Inr ([], res) \<and> res name = Some []))
       \<and> (items (timestamps r) \<noteq> []
            \<longrightarrow> (\<exists>e. get_data r vs = Inl e)
              \<and> ((\<forall>n \<in> set vs. \<forall>d. series r n = Some d
                      \<longrightarrow> length (items d) = length (items (timestamps r)))
                   \<longrightarrow> get_data r vs = Inl KeyError))"
proof -
  have none: "series r name = None"
    using assms(2,3) by (auto simp: dom_def)
  let ?msk = "map (\<lambda>t. t \<ge> last (items (timestamps r)) - window r) (items (timestamps r))"
  have a: "items (timestamps r) = []
            \<longrightarrow> (\<exists>res. get_data r vs = Inr ([], res) \<and> res name = Some [])"
    using assms(1) by (simp add: get_data_def map_of_empty_lists)
  have b: "items (timestamps r) \<noteq> [] \<longrightarrow> (\<exists>e. get_data r vs = Inl e)"
    using collect_series_missing [of name vs "series r" ?msk Map.empty] assms(1) none
    by (auto simp: get_data_nonempty)
  have c: "items (timestamps r) \<noteq> []
             \<longrightarrow> (\<forall>n \<in> set vs. \<forall>d. series r n = Some d
                      \<longrightarrow> length (items d) = length (items (timestamps r)))
             \<longrightarrow> get_data r vs = Inl KeyError"
    using collect_series_KeyError [of name vs "series r" ?msk Map.empty] assms(1) none
    by (auto simp: get_data_nonempty)
  show ?thesis
    using a b c by blast
qed

theorem snapshot_unconfigured_name_witness:
  "(\<exists>res. get_data (init_receiver 0x0A01 (30::int) [''a'']) [''a'', ''zz''] = Inr ([], res)
         \<and> res ''zz'' = Some [])
   \<and> get_data \<lparr>key_filter = 0x0A01, window = 30::int, param_names = [''a''], num_params = 1,
                 timestamps = \<lparr>maxlen = 10000, items = [100]\<rparr>,
                 series = [''a'' \<mapsto> \<lparr>maxlen = 10000, items = [11]\<rparr>],
                 packet_count = 1, running = True\<rparr> [''a'', ''zz'']
       = Inl KeyError"
proof -
  let ?ini = "init_receiver 0x0A01 (30::int) [''a'']"
  let ?r = "\<lparr>key_filter = 0x0A01, window = 30::int, param_names = [''a''], num_params = 1,
                 timestamps = \<lparr>maxlen = 10000, items = [100]\<rparr>,
                 series = [''a'' \<mapsto> \<lparr>maxlen = 10000, items = [11]\<rparr>],
                 packet_count = 1, running = True\<rparr>"
  have i1: "''zz'' \<in> set [''a'', ''zz'']" by simp
  have i2: "''zz'' \<notin> set (param_names ?ini)" "dom (series ?ini) = set (param_names ?ini)"
    "items (timestamps ?ini) = []"
    by (simp_all add: init_receiver_def Let_def deque_new_def)
  have r2: "''zz'' \<notin> set (param_names ?r)" "dom (series ?r) = set (param_names ?r)"
    "items (timestamps ?r) \<noteq> []"
    "\<forall>n \<in> set [''a'', ''zz'']. \<forall>d. series ?r n = Some d
        \<longrightarrow> length (items d) = length (items (timestamps ?r))"
    by auto
  from snapshot_unconfigured_name [OF i1 i2(1,2)] i2(3)
  have a: "\<exists>res. get_data ?ini [''a'', ''zz''] = Inr ([], res) \<and> res ''zz'' = Some []"
    by blast
  from snapshot_unconfigured_name [OF i1 r2(1,2)] r2(3,4)
  have b: "get_data ?r [''a'', ''zz''] = Inl KeyError"
    by blast
  show ?thesis
    using a b by blast
qed

lemma buffers_parallelD:
  assumes "buffers_parallel r" and "n \<in> set (param_names r)"
  shows "\<exists>d. series r n = Some d \<and> maxlen d = maxlen (timestamps r)
           \<and> length (items d) = length (items (timestamps r))"
proof (cases "series r n")
  case None
  then show ?thesis
    using assms by (auto simp: buffers_parallel_def)
next
  case (Some d)
  then show ?thesis
    using assms by (force simp: buffers_parallel_def)
qed

lemma deque_append_parallel:
  "maxlen d = maxlen t \<Longrightarrow> length (items d) = length (items t)
     \<Longrightarrow> length (items (deque_append d x)) = length (items (deque_append t y))"
  by (simp add: deque_append_length)

lemma init_receiver_parallel: "buffers_parallel (init_receiver k w names)"
  by (auto simp: buffers_parallel_def init_receiver_def Let_def deque_new_def map_of_map_restrict
      split: option.splits)

lemma listen_step_parallel:
  assumes d: "distinct (param_names r)"
    and np: "num_params r = int (length (param_names r))"
    and par: "buffers_parallel r"
  shows "\<exists>r'. listen_step r ev now = Inr r' \<and> buffers_parallel r'
           \<and> param_names r' = param_names r \<and> num_params r' = num_params r
           \<and> running r' = running r"
proof (cases "accepted r ev")
  case None
  then have "listen_step r ev now = Inr r"
    using np by (intro listen_step_not_accepted) simp_all
  then show ?thesis using par by simp
next
  case (Some pkt)
  have dom: "set (param_names r) \<subseteq> dom (series r)"
    using buffers_parallelD [OF par] by auto
  let ?r' = "r\<lparr>timestamps := deque_append (timestamps r) now,
                    series := (\<lambda>n. map_option
                                 (\<lambda>d. deque_extend d (samples_for n (param_names r) (pkt_values pkt)))
                                 (series r n)),
                    packet_count := packet_count r + 1\<rparr>"
  have step: "listen_step r ev now = Inr ?r'"
    by (rule listen_step_accepted [OF Some np dom])
  have len: "length (pkt_values pkt) = length (param_names r)"
    using accepted_values_length [OF Some] np by simp
  have "buffers_parallel ?r'"
    unfolding buffers_parallel_def
  proof
    fix n
    assume "n \<in> set (param_names ?r')"
    then obtain i where i: "i < length (param_names r)" "n = param_names r ! i"
      by (auto simp: in_set_conv_nth)
    from buffers_parallelD [OF par, of n] i obtain dq where dq: "series r n = Some dq"
      "maxlen dq = maxlen (timestamps r)" "length (items dq) = length (items (timestamps r))"
      by auto
    have s: "samples_for n (param_names r) (pkt_values pkt) = [pkt_values pkt ! i]"
      using samples_for_distinct [OF d i(1), of "pkt_values pkt"] len i(2) by simp
    show "case series ?r' n of
            None \<Rightarrow> False
          | Some d \<Rightarrow> maxlen d = maxlen (timestamps ?r')
                       \<and> length (items d) = length (items (timestamps ?r'))"
      using dq deque_append_parallel [of dq "timestamps r" "pkt_values pkt ! i" now]
      by (simp add: s)
  qed
  then show ?thesis
    using step by simp
qed

lemma listen_parallel:
  assumes "distinct (param_names r)"
    and "num_params r = int (length (param_names r))"
    and "buffers_parallel r"
  shows "\<exists>r'. listen r evs = Inr r' \<and> buffers_parallel r'"
  using assms
proof (induction evs arbitrary: r)
  case Nil
  then show ?case by simp
next
  case (Cons ev evs)
  obtain e now where ev: "ev = (e, now)" by (cases ev)
  from listen_step_parallel [OF Cons.prems, of e now]
  obtain r1 where r1: "listen_step r e now = Inr r1" "buffers_parallel r1"
    "param_names r1 = param_names r" "num_params r1 = num_params r"
    by blast
  have "\<exists>r'. listen r1 evs = Inr r' \<and> buffers_parallel r'"
    using Cons.prems r1 by (intro Cons.IH) simp_all
  then show ?case
    using r1 Cons.prems by (auto simp: ev)
qed

lemma get_data_parallel:
  assumes "buffers_parallel r" and "set vs \<subseteq> set (param_names r)"
  shows "\<exists>rel res. get_data r vs = Inr (rel, res)
           \<and> (\<forall>n \<in> set vs. \<exists>xs. res n = Some xs \<and> length xs = length rel)"
proof (cases "items (timestamps r) = []")
  case True
  then show ?thesis
    by (simp add: get_data_def map_of_empty_lists)
next
  case False
  have h: "\<forall>n \<in> set vs. \<exists>d. series r n = Some d
               \<and> length (items d) = length (items (timestamps r))"
    using buffers_parallelD [OF assms(1)] assms(2) by blast
  let ?ts = "items (timestamps r)"
  let ?p = "\<lambda>t. t \<ge> last ?ts - window r"
  let ?res = "\<lambda>n. if n \<in> set vs
                   then Some (map fst (filter snd (zip (items (the (series r n))) (map ?p ?ts))))
                   else None"
  have c: "collect_series (series r) (map ?p ?ts) vs Map.empty = Inr ?res"
    using h by (intro collect_series_ok) simp
  have g: "get_data r vs = Inr (map (\<lambda>i. ?ts ! i - last ?ts) (window_indices r), ?res)"
    using False by (simp add: get_data_nonempty c)
  have "\<forall>n \<in> set vs. \<exists>xs. ?res n = Some xs \<and> length xs = length (window_indices r)"
  proof
    fix n
    assume n: "n \<in> set vs"
    with h obtain d where d: "series r n = Some d" "length (items d) = length ?ts"
      by auto
    have "map fst (filter snd (zip (items d) (map ?p ?ts)))
            = map ((!) (items d)) (filter (\<lambda>i. ?p (?ts ! i)) [0..<length ?ts])"
      using d bool_index_map [of "items d" ?p ?ts] by (simp add: bool_index_def)
    then show "\<exists>xs. ?res n = Some xs \<and> length xs = length (window_indices r)"
      using n d by (simp add: window_indices_def Let_def)
  qed
  then show ?thesis
    using g by simp
qed

lemma get_data_IndexError:
  assumes "items (timestamps r) \<noteq> []" and "series r n = Some d"
    and "length (items d) \<noteq> length (items (timestamps r))"
  shows "get_data r (n # vs) = Inl IndexError"
  using assms by (simp add: get_data_nonempty bool_index_def)

lemma duplicate_name_state:
  "listen_step (init_receiver 0x0A01 (30::int) [''a'', ''a''])
     (Datagram [0x0A, 0x01, 0, 13, 0, 0, 0, 0, 0, 0, 0, 0, 0, 1, 0, 2,
                0, 0, 0, 11, 0, 0, 0, 12, 0xDE, 0xAD] ''10.0.0.1'' 5001) 100
     = Inr ((init_receiver 0x0A01 30 [''a'', ''a''])
              \<lparr>timestamps := \<lparr>maxlen = 10000, items = [100]\<rparr>,
               series := [''a'' \<mapsto> \<lparr>maxlen = 10000, items = [11, 12]\<rparr>],
               packet_count := 1\<rparr>)"
proof -
  let ?b = "[0x0A, 0x01, 0, 13, 0, 0, 0, 0, 0, 0, 0, 0, 0, 1, 0, 2,
             0, 0, 0, 11, 0, 0, 0, 12, 0xDE, 0xAD] :: byte list"
  let ?ini = "init_receiver 0x0A01 (30::int) [''a'', ''a'']"
  let ?ev = "Datagram ?b ''10.0.0.1'' 5001"
  let ?pkt = "\<lparr>pkt_key = 0x0A01, pkt_size = 13, pkt_time_us = 0, pkt_status = 0,
                pkt_sequence = 1, pkt_n_params = 2, pkt_values = [11, 12]\<rparr>"
  have p: "parse_iena_packet ?b 2 = Inr (Some ?pkt)"
    by code_simp
  have ini: "num_params ?ini = 2" "key_filter ?ini = 0x0A01" "param_names ?ini = [''a'', ''a'']"
    "timestamps ?ini = \<lparr>maxlen = 10000, items = []\<rparr>" "packet_count ?ini = 0"
    "series ?ini = [''a'' \<mapsto> \<lparr>maxlen = 10000, items = []\<rparr>]"
    by (simp_all add: init_receiver_def Let_def deque_new_def fun_eq_iff)
  have acc: "accepted ?ini ?ev = Some ?pkt"
    by (simp add: accepted_def p ini)
  have ser: "(\<lambda>n. map_option
                (\<lambda>d. deque_extend d (samples_for n (param_names ?ini) (pkt_values ?pkt)))
                (series ?ini n))
           = [''a'' \<mapsto> \<lparr>maxlen = 10000, items = [11, 12]\<rparr>]"
    by (rule ext) (simp add: ini samples_for_def deque_append_def)
  have "listen_step ?ini ?ev 100
          = Inr (?ini\<lparr>timestamps := deque_append (timestamps ?ini) 100,
                  series := (\<lambda>n. map_option
                     (\<lambda>d. deque_extend d (samples_for n (param_names ?ini) (pkt_values ?pkt)))
                     (series ?ini n)),
                  packet_count := packet_count ?ini + 1\<rparr>)"
    by (rule listen_step_accepted [OF acc]) (auto simp: ini dom_def)
  then show ?thesis
    by (simp only: ser) (simp add: ini deque_append_def)
qed

text \<open>
  The claim as stated fails on a state the receiver reaches when a name is
  configured twice: after one matching packet the buffer is not empty, and the
  snapshot of the configured name \<open>a\<close> raises \<^verbatim>\<open>IndexError\<close> instead of returning
  the values at the window's positions.
\<close>

theorem windowed_snapshot_counterexample:
  "listen_step (init_receiver 0x0A01 (30::int) [''a'', ''a''])
     (Datagram [0x0A, 0x01, 0, 13, 0, 0, 0, 0, 0, 0, 0, 0, 0, 1, 0, 2,
                0, 0, 0, 11, 0, 0, 0, 12, 0xDE, 0xAD] ''10.0.0.1'' 5001) 100
     = Inr ((init_receiver 0x0A01 30 [''a'', ''a''])
              \<lparr>timestamps := \<lparr>maxlen = 10000, items = [100]\<rparr>,
               series := [''a'' \<mapsto> \<lparr>maxlen = 10000, items = [11, 12]\<rparr>],
               packet_count := 1\<rparr>)
   \<and> ''a'' \<in> set (param_names ((init_receiver 0x0A01 (30::int) [''a'', ''a''])
              \<lparr>timestamps := \<lparr>maxlen = 10000, items = [100]\<rparr>,
               series := [''a'' \<mapsto> \<lparr>maxlen = 10000, items = [11, 12]\<rparr>],
               packet_count := 1\<rparr>))
   \<and> get_data ((init_receiver 0x0A01 (30::int) [''a'', ''a''])
              \<lparr>timestamps := \<lparr>maxlen = 10000, items = [100]\<rparr>,
               series := [''a'' \<mapsto> \<lparr>maxlen = 10000, items = [11, 12]\<rparr>],
               packet_count := 1\<rparr>) [''a'']
     = Inl IndexError"
proof -
  have "get_data ((init_receiver 0x0A01 (30::int) [''a'', ''a''])
              \<lparr>timestamps := \<lparr>maxlen = 10000, items = [100]\<rparr>,
               series := [''a'' \<mapsto> \<lparr>maxlen = 10000, items = [11, 12]\<rparr>],
               packet_count := 1\<rparr>) [''a'']
     = Inl IndexError"
    by (rule get_data_IndexError [where d = "\<lparr>maxlen = 10000, items = [11, 12]\<rparr>"]) simp_all
  then show ?thesis
    using duplicate_name_state by (simp add: init_receiver_def Let_def)
qed

text \<open>
  The claim as stated fails on the same state: with a sample stored, the snapshot
  of the configured name \<open>a\<close> and the unconfigured name \<open>zz\<close> raises
  \<^verbatim>\<open>IndexError\<close> at \<open>a\<close>, before the lookup of \<open>zz\<close> can raise \<^verbatim>\<open>KeyError\<close>.
\<close>

theorem snapshot_unconfigured_name_counterexample:
  "listen_step (init_receiver 0x0A01 (30::int) [''a'', ''a''])
     (Datagram [0x0A, 0x01, 0, 13, 0, 0, 0, 0, 0, 0, 0, 0, 0, 1, 0, 2,
                0, 0, 0, 11, 0, 0, 0, 12, 0xDE, 0xAD] ''10.0.0.1'' 5001) 100
     = Inr ((init_receiver 0x0A01 30 [''a'', ''a''])
              \<lparr>timestamps := \<lparr>maxlen = 10000, items = [100]\<rparr>,
               series := [''a'' \<mapsto> \<lparr>maxlen = 10000, items = [11, 12]\<rparr>],
               packet_count := 1\<rparr>)
   \<and> ''zz'' \<notin> set (param_names ((init_receiver 0x0A01 (30::int) [''a'', ''a''])
              \<lparr>timestamps := \<lparr>maxlen = 10000, items = [100]\<rparr>,
               series := [''a'' \<mapsto> \<lparr>maxlen = 10000, items = [11, 12]\<rparr>],
               packet_count := 1\<rparr>))
   \<and> get_data ((init_receiver 0x0A01 (30::int) [''a'', ''a''])
              \<lparr>timestamps := \<lparr>maxlen = 10000, items = [100]\<rparr>,
               series := [''a'' \<mapsto> \<lparr>maxlen = 10000, items = [11, 12]\<rparr>],
               packet_count := 1\<rparr>) [''a'', ''zz'']
     = Inl IndexError"
proof -
  have "get_data ((init_receiver 0x0A01 (30::int) [''a'', ''a''])
              \<lparr>timestamps := \<lparr>maxlen = 10000, items = [100]\<rparr>,
               series := [''a'' \<mapsto> \<lparr>maxlen = 10000, items = [11, 12]\<rparr>],
               packet_count := 1\<rparr>) [''a'', ''zz'']
     = Inl IndexError"
    by (rule get_data_IndexError [where d = "\<lparr>maxlen = 10000, items = [11, 12]\<rparr>"]) simp_all
  then show ?thesis
    using duplicate_name_state by (simp add: init_receiver_def Let_def)
qed

text \<open>
  Claim C5, amended. The buffers of a new receiver are parallel to the timestamps.
  When the configured names are pairwise distinct, every iteration of the ingestion
  loop (a timeout, a dropped datagram, an append with or without eviction) and every
  run of the loop keeps every configured name's buffer at the length and bound of
  the timestamps buffer; and on such a state a snapshot of configured names returns
  value sequences of the same length as the relative timestamps.
\<close>

theorem parallel_buffers_invariant:
  "buffers_parallel (init_receiver k w names)
   \<and> (distinct (param_names r) \<and> num_params r = int (length (param_names r))
        \<and> buffers_parallel r
      \<longrightarrow> (\<exists>r'. listen_step r ev now = Inr r' \<and> buffers_parallel r'
                 \<and> param_names r' = param_names r \<and> num_params r' = num_params r)
        \<and> (\<exists>r'. listen r evs = Inr r' \<and> buffers_parallel r'))
   \<and> (buffers_parallel r \<and> set vs \<subseteq> set (param_names r)
      \<longrightarrow> (\<exists>rel res. get_data r vs = Inr (rel, res)
             \<and> (\<forall>n \<in> set vs. \<exists>xs. res n = Some xs \<and> length xs = length rel)))"
proof (intro conjI impI)
  show "buffers_parallel (init_receiver k w names)"
    by (rule init_receiver_parallel)
next
  assume h: "distinct (param_names r) \<and> num_params r = int (length (param_names r))
        \<and> buffers_parallel r"
  then show "\<exists>r'. listen_step r ev now = Inr r' \<and> buffers_parallel r'
                 \<and> param_names r' = param_names r \<and> num_params r' = num_params r"
    using listen_step_parallel [of r ev now] by blast
  from h show "\<exists>r'. listen r evs = Inr r' \<and> buffers_parallel r'"
    using listen_parallel [of r evs] by blast
next
  assume "buffers_parallel r \<and> set vs \<subseteq> set (param_names r)"
  then show "\<exists>rel res. get_data r vs = Inr (rel, res)
             \<and> (\<forall>n \<in> set vs. \<exists>xs. res n = Some xs \<and> length xs = length rel)"
    using get_data_parallel [of r vs] by blast
qed

theorem parallel_buffers_invariant_witness:
  "buffers_parallel (init_receiver 0x0A01 (30::int) [''a'', ''b''])
   \<and> (\<exists>r'. listen_step (init_receiver 0x0A01 (30::int) [''a'', ''b''])
              (Datagram (packet_bytes 0 0x0A01 1 [11, 21]) ''10.0.0.1'' 5001) 100 = Inr r'
          \<and> buffers_parallel r')
   \<and> (\<exists>r'. listen (init_receiver 0x0A01 (30::int) [''a'', ''b''])
              [(Datagram (packet_bytes 0 0x0A01 1 [11, 21]) ''10.0.0.1'' 5001, 100),
               (Timeout, 101),
               (Datagram (packet_bytes 0 0x0B02 1 [12, 22]) ''10.0.0.2'' 5001, 102)] = Inr r'
          \<and> buffers_parallel r')
   \<and> (\<exists>rel res. get_data (init_receiver 0x0A01 (30::int) [''a'', ''b'']) [''b''] = Inr (rel, res)
          \<and> (\<exists>xs. res ''b'' = Some xs \<and> length xs = length rel))"
proof -
  let ?ini = "init_receiver 0x0A01 (30::int) [''a'', ''b'']"
  have par: "buffers_parallel ?ini"
    using parallel_buffers_invariant [THEN conjunct1] .
  have h: "distinct (param_names ?ini) \<and> num_params ?ini = int (length (param_names ?ini))
        \<and> buffers_parallel ?ini"
    using par by (simp add: init_receiver_def Let_def)
  have g: "buffers_parallel ?ini \<and> set [''b''] \<subseteq> set (param_names ?ini)"
    using par by (simp add: init_receiver_def Let_def)
  have s: "\<exists>r'. listen_step ?ini
              (Datagram (packet_bytes 0 0x0A01 1 [11, 21]) ''10.0.0.1'' 5001) 100 = Inr r'
          \<and> buffers_parallel r'"
    using parallel_buffers_invariant [THEN conjunct2, THEN conjunct1, rule_format, OF h,
        THEN conjunct1, of "Datagram (packet_bytes 0 0x0A01 1 [11, 21]) ''10.0.0.1'' 5001" 100]
    by blast
  have l: "\<exists>r'. listen ?ini
              [(Datagram (packet_bytes 0 0x0A01 1 [11, 21]) ''10.0.0.1'' 5001, 100),
               (Timeout, 101),
               (Datagram (packet_bytes 0 0x0B02 1 [12, 22]) ''10.0.0.2'' 5001, 102)] = Inr r'
          \<and> buffers_parallel r'"
    by (rule parallel_buffers_invariant [THEN conjunct2, THEN conjunct1, rule_format, OF h,
        THEN conjunct2])
  have d: "\<exists>rel res. get_data ?ini [''b''] = Inr (rel, res)
          \<and> (\<exists>xs. res ''b'' = Some xs \<and> length xs = length rel)"
    using parallel_buffers_invariant [THEN conjunct2, THEN conjunct2, rule_format, OF g]
    by simp
  show ?thesis
    using par s l d by blast
qed

text \<open>
  The claim as stated fails when a name is configured twice: one matching packet
  appends one timestamp and two values to the single buffer of that name, and the
  next snapshot of the name raises \<^verbatim>\<open>IndexError\<close>.
\<close>

theorem parallel_buffers_counterexample:
  "build_iena_packet 0 0x0A01 1 [11, 12] 2
     = Inr [0x0A, 0x01, 0, 13, 0, 0, 0, 0, 0, 0, 0, 0, 0, 1, 0, 2,
            0, 0, 0, 11, 0, 0, 0, 12, 0xDE, 0xAD]
   \<and> \<not> isl (listen_step (init_receiver 0x0A01 (30::int) [''a'', ''a''])
          (Datagram [0x0A, 0x01, 0, 13, 0, 0, 0, 0, 0, 0, 0, 0, 0, 1, 0, 2,
                     0, 0, 0, 11, 0, 0, 0, 12, 0xDE, 0xAD] ''10.0.0.1'' 5001) 100)
   \<and> items (timestamps (projr (listen_step (init_receiver 0x0A01 (30::int) [''a'', ''a''])
          (Datagram [0x0A, 0x01, 0, 13, 0, 0, 0, 0, 0, 0, 0, 0, 0, 1, 0, 2,
                     0, 0, 0, 11, 0, 0, 0, 12, 0xDE, 0xAD] ''10.0.0.1'' 5001) 100))) = [100]
   \<and> items (the (series (projr (listen_step (init_receiver 0x0A01 (30::int) [''a'', ''a''])
          (Datagram [0x0A, 0x01, 0, 13, 0, 0, 0, 0, 0, 0, 0, 0, 0, 1, 0, 2,
                     0, 0, 0, 11, 0, 0, 0, 12, 0xDE, 0xAD] ''10.0.0.1'' 5001) 100)) ''a''))
       = [11, 12]
   \<and> isl (get_data (projr (listen_step (init_receiver 0x0A01 (30::int) [''a'', ''a''])
          (Datagram [0x0A, 0x01, 0, 13, 0, 0, 0, 0, 0, 0, 0, 0, 0, 1, 0, 2,
                     0, 0, 0, 11, 0, 0, 0, 12, 0xDE, 0xAD] ''10.0.0.1'' 5001) 100)) [''a''])
   \<and> projl (get_data (projr (listen_step (init_receiver 0x0A01 (30::int) [''a'', ''a''])
          (Datagram [0x0A, 0x01, 0, 13, 0, 0, 0, 0, 0, 0, 0, 0, 0, 1, 0, 2,
                     0, 0, 0, 11, 0, 0, 0, 12, 0xDE, 0xAD] ''10.0.0.1'' 5001) 100)) [''a''])
       = IndexError"
proof -
  let ?b = "[0x0A, 0x01, 0, 13, 0, 0, 0, 0, 0, 0, 0, 0, 0, 1, 0, 2,
             0, 0, 0, 11, 0, 0, 0, 12, 0xDE, 0xAD] :: byte list"
  let ?ini = "init_receiver 0x0A01 (30::int) [''a'', ''a'']"
  let ?ev = "Datagram ?b ''10.0.0.1'' 5001"
  let ?pkt = "\<lparr>pkt_key = 0x0A01, pkt_size = 13, pkt_time_us = 0, pkt_status = 0,
                pkt_sequence = 1, pkt_n_params = 2, pkt_values = [11, 12]\<rparr>"
  let ?r1 = "?ini\<lparr>timestamps := deque_append (timestamps ?ini) 100,
                  series := (\<lambda>n. map_option
                     (\<lambda>d. deque_extend d (samples_for n (param_names ?ini) (pkt_values ?pkt)))
                     (series ?ini n)),
                  packet_count := packet_count ?ini + 1\<rparr>"
  have b: "build_iena_packet 0 0x0A01 1 [11, 12] 2 = Inr ?b"
    by code_simp
  have p: "parse_iena_packet ?b 2 = Inr (Some ?pkt)"
    by code_simp
  have ini: "num_params ?ini = 2" "key_filter ?ini = 0x0A01" "param_names ?ini = [''a'', ''a'']"
    "timestamps ?ini = \<lparr>maxlen = 10000, items = []\<rparr>"
    "series ?ini ''a'' = Some \<lparr>maxlen = 10000, items = []\<rparr>"
    by (simp_all add: init_receiver_def Let_def deque_new_def)
  have acc: "accepted ?ini ?ev = Some ?pkt"
    by (simp add: accepted_def p ini)
  have step: "listen_step ?ini ?ev 100 = Inr ?r1"
    by (rule listen_step_accepted [OF acc]) (auto simp: ini dom_def)
  have ts: "items (timestamps ?r1) = [100]"
    by (simp add: ini deque_append_def)
  have sa: "series ?r1 ''a'' = Some \<lparr>maxlen = 10000, items = [11, 12]\<rparr>"
    by (simp add: ini samples_for_def deque_append_def)
  have g: "get_data ?r1 [''a''] = Inl IndexError"
    by (rule get_data_IndexError [where d = "\<lparr>maxlen = 10000, items = [11, 12]\<rparr>"])
      (simp_all add: ini samples_for_def deque_append_def)
  show ?thesis
    unfolding step sum.sel sum.disc g
    using b ts sa by auto
qed

section \<open>Verification of the discovery scan\<close>

lemma parse_never_raises: "0 \<le> n \<Longrightarrow> parse_iena_packet data n \<noteq> Inl e"
proof (cases "int (length data) < 16 + 4 * n + 2")
  case True
  then show ?thesis by (simp add: parse_too_short)
next
  case False
  assume "0 \<le> n"
  moreover from False have "16 + 4 * n + 2 \<le> int (length data)" by simp
  ultimately show ?thesis
    using parse_long_enough [of n data] by simp
qed

lemma discover_step_skip:
  assumes "0 \<le> n" and "identity_of n ev = None"
  shows "discover_step n strs ev now = Inr strs"
proof (cases ev)
  case Timeout
  then show ?thesis by (simp add: discover_step_def)
next
  case (Datagram data ip port)
  then show ?thesis
    using assms parse_never_raises [of n data]
    by (auto simp: discover_step_def identity_of_def split: sum.splits option.splits)
qed

lemma discover_step_count:
  assumes "identity_of n ev = Some ident"
  shows "discover_step n strs ev now
           = Inr (strs(ident \<mapsto>
                (case strs ident of
                   None \<Rightarrow> \<lparr>st_count = 0, st_first = now, st_last = now\<rparr>
                 | Some i \<Rightarrow> i)\<lparr>st_count :=
                     st_count (case strs ident of
                                 None \<Rightarrow> \<lparr>st_count = 0, st_first = now, st_last = now\<rparr>
                               | Some i \<Rightarrow> i) + 1,
                   st_last := now\<rparr>))"
proof (cases ev)
  case Timeout
  then show ?thesis using assms by (simp add: identity_of_def)
next
  case (Datagram data ip port)
  then show ?thesis
    using assms
    by (auto simp: discover_step_def identity_of_def Let_def split: sum.splits option.splits)
qed

lemma discover_steps_snoc:
  "discover_steps n strs (obs @ [ob])
     = (case discover_steps n strs obs of
          Inl e \<Rightarrow> Inl e
        | Inr s \<Rightarrow> discover_step n s (received ob) (clock_now ob))"
  by (induction obs arbitrary: strs) (auto split: sum.splits)

lemma arrivals_snoc:
  "arrivals n ident (obs @ [ob])
     = (if identity_of n (received ob) = Some ident
        then arrivals n ident obs @ [clock_now ob] else arrivals n ident obs)"
  by (simp add: arrivals_def)

lemma discover_steps_aggregate:
  assumes "0 \<le> n"
  shows "discover_steps n Map.empty obs
           = Inr (\<lambda>ident. if arrivals n ident obs = [] then None
                            else Some \<lparr>st_count = int (length (arrivals n ident obs)),
                                       st_first = hd (arrivals n ident obs),
                                       st_last = last (arrivals n ident obs)\<rparr>)"
proof (induction obs rule: rev_induct)
  case Nil
  then show ?case by (simp add: arrivals_def)
next
  case (snoc ob obs)
  let ?m = "\<lambda>obs ident. if arrivals n ident obs = [] then None
                            else Some \<lparr>st_count = int (length (arrivals n ident obs)),
                                       st_first = hd (arrivals n ident obs),
                                       st_last = last (arrivals n ident obs)\<rparr>"
  show ?case
  proof (cases "identity_of n (received ob)")
    case None
    have e: "?m (obs @ [ob]) = ?m obs"
      by (rule ext) (simp add: arrivals_snoc None)
    have "discover_steps n Map.empty (obs @ [ob])
            = discover_step n (?m obs) (received ob) (clock_now ob)"
      by (simp only: discover_steps_snoc snoc sum.case)
    also have "\<dots> = Inr (?m obs)"
      by (rule discover_step_skip [OF assms None])
    finally show ?thesis
      by (simp only: e)
  next
    case (Some id)
    let ?info = "case ?m obs id of
                   None \<Rightarrow> \<lparr>st_count = 0, st_first = clock_now ob, st_last = clock_now ob\<rparr>
                 | Some i \<Rightarrow> i"
    have e: "(?m obs)(id \<mapsto> ?info\<lparr>st_count := st_count ?info + 1, st_last := clock_now ob\<rparr>)
               = ?m (obs @ [ob])"
      by (rule ext) (simp add: arrivals_snoc Some)
    have "discover_steps n Map.empty (obs @ [ob])
            = discover_step n (?m obs) (received ob) (clock_now ob)"
      by (simp only: discover_steps_snoc snoc sum.case)
    also have "\<dots> = Inr ((?m obs)(id \<mapsto> ?info\<lparr>st_count := st_count ?info + 1,
                                               st_last := clock_now ob\<rparr>))"
      by (rule discover_step_count [OF Some])
    finally show ?thesis
      by (simp only: e)
  qed
qed

lemma discover_loop_unroll:
  assumes "\<forall>j < k. clock_check (env (i + j)) < deadline"
    and "\<not> clock_check (env (i + k)) < deadline"
  shows "discover_loop env n deadline i strs = Some (discover_steps n strs (map env [i..<i + k]))"
  using assms
proof (induction k arbitrary: i strs)
  case 0
  then show ?case by (subst discover_loop.simps) simp
next
  case (Suc k)
  have c: "clock_check (env i) < deadline"
    using Suc.prems(1) [rule_format, of 0] by simp
  have u: "[i..<i + Suc k] = i # [Suc i..<Suc i + k]"
    by (simp add: upt_conv_Cons)
  show ?case
  proof (cases "discover_step n strs (received (env i)) (clock_now (env i))")
    case (Inl e)
    then show ?thesis
      unfolding u using c by (subst discover_loop.simps) simp
  next
    case (Inr s)
    have "\<forall>j < k. clock_check (env (Suc i + j)) < deadline"
      using Suc.prems(1) by (metis add_Suc_shift Suc_less_eq)
    moreover have "\<not> clock_check (env (Suc i + k)) < deadline"
      using Suc.prems(2) by simp
    ultimately have "discover_loop env n deadline (Suc i) s
                       = Some (discover_steps n s (map env [Suc i..<Suc i + k]))"
      by (rule Suc.IH)
    then show ?thesis
      unfolding u using c Inr by (subst discover_loop.simps) simp
  qed
qed

lemma discover_step_never_raises: "0 \<le> n \<Longrightarrow> discover_step n strs ev now \<noteq> Inl e"
proof (cases "identity_of n ev")
  case None
  assume "0 \<le> n"
  from discover_step_skip [OF this None, of strs now] show ?thesis by simp
next
  case (Some ident)
  from discover_step_count [OF Some, of strs now] show ?thesis by simp
qed

lemma discover_loop_diverges:
  assumes late: "\<forall>k. clock_check (env k) < deadline" and n: "0 \<le> n"
  shows "discover_loop env n deadline i strs = None"
proof (rule ccontr)
  assume "discover_loop env n deadline i strs \<noteq> None"
  then obtain y where y: "discover_loop env n deadline i strs = Some y" by auto
  have "(\<forall>k. clock_check (env k) < deadline) \<longrightarrow> 0 \<le> n \<longrightarrow> False"
  proof (rule discover_loop.raw_induct
      [where P = "\<lambda>env n deadline i strs y.
                    (\<forall>k. clock_check (env k) < deadline) \<longrightarrow> 0 \<le> n \<longrightarrow> False", OF _ y])
    fix loop :: "(nat \<Rightarrow> 'a observation) \<Rightarrow> int \<Rightarrow> 'a \<Rightarrow> nat \<Rightarrow> 'a streams
                   \<Rightarrow> (error + 'a streams) option"
    fix env' n' deadline' i' strs' y'
    assume ih: "\<And>e m d j s z. loop e m d j s = Some z
                  \<Longrightarrow> (\<forall>k. clock_check (e k) < d) \<longrightarrow> 0 \<le> m \<longrightarrow> False"
    assume body: "(if clock_check (env' i') < deadline'
      then case discover_step n' strs' (received (env' i')) (clock_now (env' i')) of
             Inl e \<Rightarrow> Some (Inl e)
           | Inr s \<Rightarrow> loop env' n' deadline' (Suc i') s
      else Some (Inr strs')) = Some y'"
    show "(\<forall>k. clock_check (env' k) < deadline') \<longrightarrow> 0 \<le> n' \<longrightarrow> False"
    proof (intro impI)
      assume a: "\<forall>k. clock_check (env' k) < deadline'" and m: "0 \<le> n'"
      obtain s where s: "discover_step n' strs' (received (env' i')) (clock_now (env' i')) = Inr s"
        using discover_step_never_raises [OF m, of strs' "received (env' i')" "clock_now (env' i')"]
        by (cases "discover_step n' strs' (received (env' i')) (clock_now (env' i'))") auto
      from body a s have "loop env' n' deadline' (Suc i') s = Some y'" by simp
      from ih [OF this] a m show False by simp
    qed
  qed
  with late n show False by simp
qed

lemma identity_of_packet_bytes:
  assumes "in_u16 key" "in_u16 seq" "length vs < 32764"
  shows "identity_of (int (length vs)) (Datagram (packet_bytes t key seq vs) ip port) = Some (key, ip)"
  using parse_packet_bytes [OF assms, of t] by (simp add: identity_of_def)

lemma identity_of_short:
  "int (length data) < 16 + 4 * n + 2 \<Longrightarrow> identity_of n (Datagram data ip port) = None"
  by (simp add: identity_of_def parse_too_short)

lemma upt_10: "[0..<10] = [0, 1, 2, 3, 4, 5, 6, 7, 8, 9 :: nat]"
  by code_simp

lemma sample_traffic_identity:
  "identity_of 1 (received (sample_traffic i))
     = (if i < 5 then Some (0x0A01, ''10.0.0.1'')
        else if i = 5 \<or> i = 6 then None else Some (0x0B02, ''10.0.0.2''))"
proof -
  have a: "\<And>q. in_u16 q \<Longrightarrow>
             identity_of 1 (Datagram (packet_bytes 0 0x0A01 q [11]) ''10.0.0.1'' 5001)
               = Some (0x0A01, ''10.0.0.1'')"
    using identity_of_packet_bytes [of "0x0A01" _ "[11]" 0 "''10.0.0.1''" 5001]
    by (simp add: in_u16_def)
  have b: "\<And>q. in_u16 q \<Longrightarrow>
             identity_of 1 (Datagram (packet_bytes 0 0x0B02 q [12]) ''10.0.0.2'' 5001)
               = Some (0x0B02, ''10.0.0.2'')"
    using identity_of_packet_bytes [of "0x0B02" _ "[12]" 0 "''10.0.0.2''" 5001]
    by (simp add: in_u16_def)
  have c: "identity_of 1 (Datagram [0xDE, 0xAD] ''10.0.0.3'' 5001) = None"
    by (rule identity_of_short) simp
  have d: "identity_of 1 Timeout = None"
    by (simp add: identity_of_def)
  show ?thesis
    by (simp add: sample_traffic_def a b c d in_u16_def)
qed

lemma sample_traffic_clock:
  "clock_check (sample_traffic i) = int i" "clock_now (sample_traffic i) = int i"
  by (simp_all add: sample_traffic_def)

lemma sample_traffic_arrivals:
  "arrivals 1 ident (map sample_traffic [0..<10])
     = (if ident = (0x0A01, ''10.0.0.1'') then [0, 1, 2, 3, 4]
        else if ident = (0x0B02, ''10.0.0.2'') then [7, 8, 9] else [])"
  by (auto simp: arrivals_def upt_10 sample_traffic_identity sample_traffic_clock)

text \<open>
  Claim C7. When the scan processes the observations \<open>0, \<dots>, k - 1\<close> before the
  deadline, it returns a mapping that has, for each identity (decoded key, source
  address) with at least one decoded datagram, a record whose count is the number
  of decoded datagrams of that identity and whose first and last times are the
  arrival times of the first and the last of them, and that has no other record;
  timeouts and datagrams that do not decode change nothing.
\<close>

theorem discovery_aggregation:
  assumes "0 \<le> n"
    and "\<forall>j < k. clock_check (env j) < start + duration"
    and "\<not> clock_check (env k) < start + duration"
  shows "\<exists>m. discover_streams env start duration n = Some (Inr m)
           \<and> (\<forall>ident. m ident
                 = (if arrivals n ident (map env [0..<k]) = [] then None
                    else Some \<lparr>st_count = int (length (arrivals n ident (map env [0..<k]))),
                               st_first = hd (arrivals n ident (map env [0..<k])),
                               st_last = last (arrivals n ident (map env [0..<k]))\<rparr>))"
proof -
  have "discover_streams env start duration n
          = Some (discover_steps n Map.empty (map env [0..<k]))"
    using discover_loop_unroll [of k env 0 "start + duration" n Map.empty] assms(2,3)
    by (simp add: discover_streams_def)
  then show ?thesis
    by (simp add: discover_steps_aggregate [OF assms(1)])
qed

theorem discovery_aggregation_witness:
  "\<exists>m. discover_streams sample_traffic 0 10 1 = Some (Inr m)
        \<and> m (0x0A01, ''10.0.0.1'') = Some \<lparr>st_count = 5, st_first = 0, st_last = 4\<rparr>
        \<and> m (0x0B02, ''10.0.0.2'') = Some \<lparr>st_count = 3, st_first = 7, st_last = 9\<rparr>
        \<and> dom m = {(0x0A01, ''10.0.0.1''), (0x0B02, ''10.0.0.2'')}"
proof -
  have h: "(0::int) \<le> 1" "\<forall>j < 10. clock_check (sample_traffic j) < 0 + 10"
    "\<not> clock_check (sample_traffic 10) < 0 + 10"
    by (simp_all add: sample_traffic_clock)
  from discovery_aggregation [OF h]
  obtain m where m: "discover_streams sample_traffic 0 10 1 = Some (Inr m)"
    and r: "\<And>ident. m ident
              = (if arrivals 1 ident (map sample_traffic [0..<10]) = [] then None
                 else Some \<lparr>st_count = int (length (arrivals 1 ident (map sample_traffic [0..<10]))),
                            st_first = hd (arrivals 1 ident (map sample_traffic [0..<10])),
                            st_last = last (arrivals 1 ident (map sample_traffic [0..<10]))\<rparr>)"
    by auto
  have a: "m (0x0A01, ''10.0.0.1'') = Some \<lparr>st_count = 5, st_first = 0, st_last = 4\<rparr>"
    by (simp add: r sample_traffic_arrivals)
  have b: "m (0x0B02, ''10.0.0.2'') = Some \<lparr>st_count = 3, st_first = 7, st_last = 9\<rparr>"
    by (simp add: r sample_traffic_arrivals)
  have d: "dom m = {(0x0A01, ''10.0.0.1''), (0x0B02, ''10.0.0.2'')}"
    by (auto simp: dom_def r sample_traffic_arrivals split: if_splits)
  show ?thesis
    using m a b d by blast
qed

text \<open>
  Claim C8. Whatever datagrams and timeouts the socket delivers, if some evaluation
  of the loop condition finds that the monotonic clock has reached the deadline
  \<open>start + duration\<close>, the scan returns at the first such evaluation, with the
  mapping accumulated from the observations before it. (If no evaluation ever finds
  the deadline reached, the scan does not return.)
\<close>

theorem discovery_terminates:
  "((\<exists>k. \<not> clock_check (env k) < start + duration)
      \<longrightarrow> (\<exists>k. \<not> clock_check (env k) < start + duration
               \<and> (\<forall>j < k. clock_check (env j) < start + duration)
               \<and> discover_streams env start duration n
                   = Some (discover_steps n Map.empty (map env [0..<k]))
               \<and> (0 \<le> n \<longrightarrow> (\<exists>m. discover_streams env start duration n = Some (Inr m)))))
   \<and> ((\<forall>k. clock_check (env k) < start + duration) \<and> 0 \<le> n
      \<longrightarrow> discover_streams env start duration n = None)"
proof (intro conjI impI)
  assume "\<exists>k. \<not> clock_check (env k) < start + duration"
  then obtain k where k: "\<not> clock_check (env k) < start + duration"
    and least: "\<forall>j < k. clock_check (env j) < start + duration"
    using exists_least_iff [of "\<lambda>k. \<not> clock_check (env k) < start + duration"] by auto
  have r: "discover_streams env start duration n
             = Some (discover_steps n Map.empty (map env [0..<k]))"
    using discover_loop_unroll [of k env 0 "start + duration" n Map.empty] k least
    by (simp add: discover_streams_def)
  have "0 \<le> n \<longrightarrow> (\<exists>m. discover_streams env start duration n = Some (Inr m))"
    using r by (simp add: discover_steps_aggregate)
  with k least r
  show "\<exists>k. \<not> clock_check (env k) < start + duration
               \<and> (\<forall>j < k. clock_check (env j) < start + duration)
               \<and> discover_streams env start duration n
                   = Some (discover_steps n Map.empty (map env [0..<k]))
               \<and> (0 \<le> n \<longrightarrow> (\<exists>m. discover_streams env start duration n = Some (Inr m)))"
    by blast
next
  assume "(\<forall>k. clock_check (env k) < start + duration) \<and> 0 \<le> n"
  then show "discover_streams env start duration n = None"
    by (simp add: discover_streams_def discover_loop_diverges)
qed

theorem discovery_terminates_witness:
  "(\<exists>m. discover_streams sample_traffic 0 10 1 = Some (Inr m))
   \<and> discover_streams (\<lambda>i. \<lparr>clock_check = 0::int, received = Timeout, clock_now = 0\<rparr>) 0 10 1
       = None"
proof -
  have "\<exists>k. \<not> clock_check (sample_traffic k) < 0 + 10"
    by (rule exI [of _ 10]) (simp add: sample_traffic_clock)
  from discovery_terminates [THEN conjunct1, rule_format, OF this, of 1]
  have a: "\<exists>m. discover_streams sample_traffic 0 10 1 = Some (Inr m)"
    by auto
  have "(\<forall>k. clock_check ((\<lambda>i. \<lparr>clock_check = 0::int, received = Timeout, clock_now = 0\<rparr>) k)
              < 0 + 10) \<and> (0::int) \<le> 1"
    by simp
  from discovery_terminates [THEN conjunct2, rule_format, OF this]
  have b: "discover_streams (\<lambda>i. \<lparr>clock_check = 0::int, received = Timeout, clock_now = 0\<rparr>)
             0 10 1 = None" .
  show ?thesis
    using a b by blast
qed

section \<open>Verification of the configuration checks\<close>

lemma receiver_rejects_unknown_variable:
  "v \<in> set vs \<Longrightarrow> v \<notin> set names
     \<Longrightarrow> receiver_main_config (Some (Some names)) (Some vs) = ParserError"
  by (auto simp: receiver_main_config_def)

lemma receiver_rejects_unknown_variable_default:
  "v \<in> set vs \<Longrightarrow> v \<notin> set default_param_names
     \<Longrightarrow> receiver_main_config None (Some vs) = ParserError"
  by (auto simp: receiver_main_config_def)

lemma sender_rejects_zero_parameters:
  "filter (\<lambda>v. v \<noteq> []) vars = [] \<Longrightarrow> sender_main_config vars = ParserError"
  by (simp add: sender_main_config_def)

lemma receiver_zero_parameters:
  "receiver_main_config (Some (Some [])) vars
     = (case vars of
          None \<Rightarrow> Proceed [] []
        | Some vs \<Rightarrow> if vs = [] then Proceed [] [] else ParserError)"
  by (cases vars) (auto simp: receiver_main_config_def neq_Nil_conv)

text \<open>
  Claim C9. The receiver rejects an unknown requested variable before it opens a
  socket, but it does not reject zero configured parameters: with a configuration
  file that lists no parameter and without \<^verbatim>\<open>--vars\<close>, the validation passes and the
  run goes on to open its socket with a parameter count of 0. The sender rejects
  zero parameters.
\<close>

theorem receiver_accepts_zero_parameters:
  "receiver_main_config (Some (Some [])) None = Proceed [] []
   \<and> sender_main_config [[]] = ParserError
   \<and> receiver_main_config (Some (Some [''a''])) (Some [''zz'']) = ParserError"
  by (simp add: receiver_main_config_def sender_main_config_def)

end
